theory Spec2Isabelle
  imports Complex_Main
begin

section \<open>Data model\<close>

text \<open>
  The detection engine (\<^verbatim>\<open>suggestCropWithEdgeDetection\<close> and its helpers) and
  the enhancement engine (\<^verbatim>\<open>enhanceImage\<close>) work on JavaScript numbers and on
  \<^verbatim>\<open>Uint8ClampedArray\<close> buffers.

  A JavaScript number is a binary64 floating-point number. Where the code only
  handles integers (loop counters, pixel coordinates, array indices, sums of bytes)
  the model uses \<^typ>\<open>int\<close> and \<^typ>\<open>nat\<close>; the fields of a \<^verbatim>\<open>CropBox\<close> are finite
  numbers, modelled as \<^typ>\<open>real\<close> (\<open>box_x\<close>, \<open>box_y\<close>, \<open>box_w\<close>, \<open>box_h\<close> for
  \<^verbatim>\<open>x\<close>, \<^verbatim>\<open>y\<close>, \<^verbatim>\<open>w\<close>, \<^verbatim>\<open>h\<close>), those of a point are integers (\<open>pt_x\<close>,
  \<open>pt_y\<close>). The sums, differences and products of \<^verbatim>\<open>shouldMerge\<close> and of the merge
  margin are computed as the code computes them, each result rounded to the nearest
  binary64 number (section \<open>Binary64 arithmetic\<close>). The remaining arithmetic (a mean of
  three bytes, a sum over 16, box areas, the area threshold and the area ratio) is
  exact in the model.

  A \<^verbatim>\<open>Uint8ClampedArray\<close> is a list of naturals; a read outside the array is
  \<^verbatim>\<open>undefined\<close> (here \<open>None\<close>), a write outside the array is ignored (as
  \<open>xs[i := v]\<close> is), and a stored number goes through the clamping conversion
  \<open>toUint8Clamp\<close>. A \<open>Buffer\<close> is such an array with a width and a height: the
  \<^verbatim>\<open>ImageData\<close> read off a canvas (four bytes per pixel) or one of the
  single-channel buffers of the pipeline.
\<close>

record CropBox =
  box_x :: real
  box_y :: real
  box_w :: real
  box_h :: real

record Point =
  pt_x :: int
  pt_y :: int

record Buffer =
  data :: "nat list"
  width :: nat
  height :: nat

datatype error =
    CanvasContextError
  | EnhancementContextError
  | UpscalingContextError

text \<open>What a call gives back to its caller: a thrown error, \<^verbatim>\<open>null\<close>, or a box.\<close>

datatype outcome = Threw error | Null | Box CropBox

section \<open>Binary64 arithmetic\<close>

text \<open>
  The result of an arithmetic operation on numbers: a finite number, an infinity or
  \<^verbatim>\<open>NaN\<close>. Signed zeros are not distinguished: no comparison tells them apart.
\<close>

datatype f64 = Finite real | PosInf | NegInf | NaN

text \<open>The nearest integer, a tie going to the even neighbour.\<close>

definition roundHalfEven :: "real \<Rightarrow> int" where
  "roundHalfEven v =
     (let f = \<lfloor>v\<rfloor>; r = v - of_int f in
      if r < 1 / 2 then f
      else if 1 / 2 < r then f + 1
      else if even f then f else f + 1)"

text \<open>
  Rounding to binary64. A number \<open>v\<close> with \<open>2 ^ e \<le> \<bar>v\<bar> < 2 ^ (e + 1)\<close> lies between
  two multiples of the quantum \<open>2 ^ (e - 52)\<close> (53 significant bits); below
  \<open>2 ^ (- 1022)\<close> the quantum stays \<open>2 ^ (- 1074)\<close> (subnormal numbers). \<open>rnd\<close> takes
  the nearest multiple, a tie going to the even one, and \<open>round64\<close> turns a result
  that has reached \<open>2 ^ 1024\<close> into an infinity.
\<close>

definition exponent64 :: "real \<Rightarrow> int" where
  "exponent64 v = (if v = 0 then - 1022 else max \<lfloor>log 2 \<bar>v\<bar>\<rfloor> (- 1022))"

definition quantum :: "real \<Rightarrow> real" where
  "quantum v = 2 powi (exponent64 v - 52)"

definition rnd :: "real \<Rightarrow> real" where
  "rnd v = of_int (roundHalfEven (v / quantum v)) * quantum v"

definition round64 :: "real \<Rightarrow> f64" where
  "round64 v =
     (let r = rnd v in
      if 2 ^ 1024 \<le> r then PosInf
      else if r \<le> - (2 ^ 1024) then NegInf
      else Finite r)"

text \<open>
  Addition, negation, subtraction, multiplication and the comparison \<^verbatim>\<open><\<close> of
  IEEE 754: the exact result rounded; \<open>\<infinity> - \<infinity>\<close> and \<open>0 * \<infinity>\<close> are \<^verbatim>\<open>NaN\<close>, and a
  comparison with \<^verbatim>\<open>NaN\<close> is false.
\<close>

fun add64 :: "f64 \<Rightarrow> f64 \<Rightarrow> f64" where
  "add64 (Finite x) (Finite y) = round64 (x + y)"
| "add64 NaN b = NaN"
| "add64 a NaN = NaN"
| "add64 PosInf NegInf = NaN"
| "add64 NegInf PosInf = NaN"
| "add64 PosInf b = PosInf"
| "add64 a PosInf = PosInf"
| "add64 NegInf b = NegInf"
| "add64 a NegInf = NegInf"

fun neg64 :: "f64 \<Rightarrow> f64" where
  "neg64 (Finite x) = Finite (- x)"
| "neg64 PosInf = NegInf"
| "neg64 NegInf = PosInf"
| "neg64 NaN = NaN"

definition sub64 :: "f64 \<Rightarrow> f64 \<Rightarrow> f64" where
  "sub64 a b = add64 a (neg64 b)"

fun sign64 :: "f64 \<Rightarrow> int" where
  "sign64 (Finite x) = (if x < 0 then - 1 else if x = 0 then 0 else 1)"
| "sign64 PosInf = 1"
| "sign64 NegInf = - 1"
| "sign64 NaN = 0"

fun mul64 :: "f64 \<Rightarrow> f64 \<Rightarrow> f64" where
  "mul64 (Finite x) (Finite y) = round64 (x * y)"
| "mul64 NaN b = NaN"
| "mul64 a NaN = NaN"
| "mul64 a b =
     (if sign64 a * sign64 b = 0 then NaN
      else if 0 < sign64 a * sign64 b then PosInf else NegInf)"

fun lt64 :: "f64 \<Rightarrow> f64 \<Rightarrow> bool" where
  "lt64 (Finite x) (Finite y) = (x < y)"
| "lt64 NaN b = False"
| "lt64 a NaN = False"
| "lt64 a NegInf = False"
| "lt64 PosInf b = False"
| "lt64 NegInf b = True"
| "lt64 a PosInf = True"

section \<open>Typed arrays\<close>

text \<open>Reading \<^verbatim>\<open>xs[i]\<close>: \<open>None\<close> is \<^verbatim>\<open>undefined\<close>.\<close>

definition aget :: "nat list \<Rightarrow> nat \<Rightarrow> nat option" where
  "aget xs i = (if i < length xs then Some (xs ! i) else None)"

definition ageti :: "nat list \<Rightarrow> int \<Rightarrow> nat option" where
  "ageti xs i = (if i < 0 then None else aget xs (nat i))"

text \<open>
  The conversion applied when a number is stored in a \<^verbatim>\<open>Uint8ClampedArray\<close>:
  clamp to the range of a byte and round to the nearest integer, a tie going to the
  even neighbour.
\<close>

definition toUint8Clamp :: "real \<Rightarrow> nat" where
  "toUint8Clamp v =
     (if v \<le> 0 then 0
      else if 255 \<le> v then 255
      else let f = \<lfloor>v\<rfloor>; r = v - of_int f in
        nat (if r < 1 / 2 then f
             else if 1 / 2 < r then f + 1
             else if even f then f else f + 1))"

text \<open>
  Arithmetic on an \<^verbatim>\<open>undefined\<close> operand gives \<^verbatim>\<open>NaN\<close>, which stays
  \<^verbatim>\<open>NaN\<close> through every later operation and is stored as 0. A number that may be
  \<^verbatim>\<open>NaN\<close> is an option, \<open>None\<close> being \<^verbatim>\<open>NaN\<close>.
\<close>

definition storeU8 :: "real option \<Rightarrow> nat" where
  "storeU8 v = (case v of None \<Rightarrow> 0 | Some r \<Rightarrow> toUint8Clamp r)"

text \<open>
  The nine taps \<open>(k, l)\<close> of a 3 by 3 kernel, \<open>k\<close> the row offset (outer loop) and
  \<open>l\<close> the column offset (inner loop).
\<close>

definition kernelTaps :: "(int \<times> int) list" where
  "kernelTaps = concat (map (\<lambda>k. map (\<lambda>l. (k, l)) [-1, 0, 1]) [-1, 0, 1])"

section \<open>Grayscale reduction\<close>

text \<open>
  One iteration of the loop of \<^verbatim>\<open>toGrayscale\<close>, for \<open>i = 4 * k\<close>; the loop runs
  while \<open>i < data.length\<close>.
\<close>

definition grayAvg :: "nat list \<Rightarrow> nat \<Rightarrow> real option" where
  "grayAvg d i =
     (case (aget d i, aget d (i + 1), aget d (i + 2)) of
        (Some r, Some g, Some b) \<Rightarrow> Some ((real r + real g + real b) / 3)
      | _ \<Rightarrow> None)"

definition grayStep :: "nat list \<Rightarrow> nat list \<Rightarrow> nat \<Rightarrow> nat list" where
  "grayStep d grayData k = (let i = 4 * k; avg = grayAvg d i in grayData[i div 4 := storeU8 avg])"

definition toGrayscale :: "Buffer \<Rightarrow> Buffer" where
  "toGrayscale imageData =
     (let grayData = replicate (width imageData * height imageData) 0
      in \<lparr>data = foldl (grayStep (data imageData)) grayData
                    [0 ..< (length (data imageData) + 3) div 4],
          width = width imageData, height = height imageData\<rparr>)"

section \<open>Blur and edge extraction\<close>

definition blurKernel :: "int list" where
  "blurKernel = [1, 2, 1, 2, 4, 2, 1, 2, 1]"

definition kernelWeight :: real where
  "kernelWeight = 16"

text \<open>
  One tap \<open>(ky, kx)\<close> of the blur at pixel \<open>(x, y)\<close>; the running sum is \<open>None\<close>
  once a read was \<^verbatim>\<open>undefined\<close>.
\<close>

definition blurTap :: "nat list \<Rightarrow> nat \<Rightarrow> nat \<Rightarrow> nat \<Rightarrow> int option \<Rightarrow> int \<times> int \<Rightarrow> int option" where
  "blurTap d w x y acc kk =
     (let ky = fst kk; kx = snd kk;
          val = ageti d ((int y + ky) * int w + (int x + kx));
          weight = blurKernel ! nat ((ky + 1) * 3 + (kx + 1))
      in case (acc, val) of
           (Some s, Some v) \<Rightarrow> Some (s + int v * weight)
         | _ \<Rightarrow> None)"

definition blurPixel :: "nat list \<Rightarrow> nat \<Rightarrow> nat list \<Rightarrow> nat \<times> nat \<Rightarrow> nat list" where
  "blurPixel d w blurredData yx =
     (let y = fst yx; x = snd yx;
          acc = foldl (blurTap d w x y) (Some 0) kernelTaps
      in blurredData[y * w + x := storeU8 (map_option (\<lambda>s. real_of_int s / kernelWeight) acc)])"

text \<open>The pixels \<open>(y, x)\<close> with \<open>1 \<le> y < height - 1\<close> and \<open>1 \<le> x < width - 1\<close>, row by row.\<close>

definition interior :: "nat \<Rightarrow> nat \<Rightarrow> (nat \<times> nat) list" where
  "interior w h = concat (map (\<lambda>y. map (\<lambda>x. (y, x)) [1 ..< w - 1]) [1 ..< h - 1])"

definition gaussianBlur :: "Buffer \<Rightarrow> Buffer" where
  "gaussianBlur gray =
     (let w = width gray; h = height gray
      in \<lparr>data = foldl (blurPixel (data gray) w) (replicate (w * h) 0) (interior w h),
          width = w, height = h\<rparr>)"

definition sobelX :: "int list" where
  "sobelX = [-1, 0, 1, -2, 0, 2, -1, 0, 1]"

definition sobelY :: "int list" where
  "sobelY = [-1, -2, -1, 0, 0, 0, 1, 2, 1]"

definition sobelTap ::
  "nat list \<Rightarrow> nat \<Rightarrow> nat \<Rightarrow> nat \<Rightarrow> (int \<times> int) option \<Rightarrow> int \<times> int \<Rightarrow> (int \<times> int) option" where
  "sobelTap d w x y acc kk =
     (let ky = fst kk; kx = snd kk;
          val = ageti d ((int y + ky) * int w + (int x + kx))
      in case (acc, val) of
           (Some (gx, gy), Some v) \<Rightarrow>
             Some (gx + int v * sobelX ! nat ((ky + 1) * 3 + (kx + 1)),
                   gy + int v * sobelY ! nat ((ky + 1) * 3 + (kx + 1)))
         | _ \<Rightarrow> None)"

text \<open>\<^verbatim>\<open>magnitude > threshold\<close>; a \<^verbatim>\<open>NaN\<close> magnitude is not above any threshold.\<close>

definition aboveThreshold :: "(int \<times> int) option \<Rightarrow> real \<Rightarrow> bool" where
  "aboveThreshold g threshold =
     (case g of
        None \<Rightarrow> False
      | Some (gx, gy) \<Rightarrow> sqrt (real_of_int (gx * gx + gy * gy)) > threshold)"

definition cannyPixel :: "nat list \<Rightarrow> nat \<Rightarrow> real \<Rightarrow> nat list \<Rightarrow> nat \<times> nat \<Rightarrow> nat list" where
  "cannyPixel d w threshold edgeData yx =
     (let y = fst yx; x = snd yx;
          g = foldl (sobelTap d w x y) (Some (0, 0)) kernelTaps
      in if aboveThreshold g threshold then edgeData[y * w + x := 255] else edgeData)"

definition cannyEdgeDetector :: "Buffer \<Rightarrow> real \<Rightarrow> Buffer" where
  "cannyEdgeDetector gray threshold =
     (let w = width gray; h = height gray
      in \<lparr>data = foldl (cannyPixel (data gray) w threshold) (replicate (w * h) 0) (interior w h),
          width = w, height = h\<rparr>)"

section \<open>Contour extraction\<close>

text \<open>\<^verbatim>\<open>!visited[i]\<close>: true of 0 and of \<^verbatim>\<open>undefined\<close>.\<close>

definition falsy :: "nat option \<Rightarrow> bool" where
  "falsy v = (case v of None \<Rightarrow> True | Some n \<Rightarrow> n = 0)"

text \<open>
  The body of the two innermost loops of \<^verbatim>\<open>findContours\<close> for one offset
  \<open>(dy, dx)\<close>, on the state made of the \<^verbatim>\<open>visited\<close> array and the queue.
\<close>

definition visitNeighbour ::
  "nat list \<Rightarrow> nat \<Rightarrow> nat \<Rightarrow> Point \<Rightarrow> nat list \<times> Point list \<Rightarrow> int \<times> int
     \<Rightarrow> nat list \<times> Point list" where
  "visitNeighbour d w h point st dd =
     (let visited = fst st; queue = snd st; dy = fst dd; dx = snd dd in
      if dx = 0 \<and> dy = 0 then st
      else
        (let nx = pt_x point + dx;
             ny = pt_y point + dy;
             nIndex = ny * int w + nx
         in if 0 \<le> nx \<and> nx < int w \<and> 0 \<le> ny \<and> ny < int h \<and>
               ageti d nIndex = Some 255 \<and> falsy (ageti visited nIndex)
            then (visited[nat nIndex := 1], queue @ [\<lparr>pt_x = nx, pt_y = ny\<rparr>])
            else st))"

text \<open>
  The \<^verbatim>\<open>while (queue.length > 0)\<close> loop. Nothing in its text bounds the number of
  iterations, so it is a partial function: \<open>None\<close> is a loop that never ends.
\<close>

partial_function (option) floodFill ::
  "nat list \<Rightarrow> nat \<Rightarrow> nat \<Rightarrow> nat list \<Rightarrow> Point list \<Rightarrow> Point list
     \<Rightarrow> (nat list \<times> Point list) option" where
  "floodFill d w h visited queue contour =
     (case queue of
        [] \<Rightarrow> Some (visited, contour)
      | point # rest \<Rightarrow>
          (let st = foldl (visitNeighbour d w h point) (visited, rest) kernelTaps
           in floodFill d w h (fst st) (snd st) (contour @ [point])))"

text \<open>The outer scan over the pixels \<open>(y, x)\<close>, row by row.\<close>

fun scanPixels ::
  "nat list \<Rightarrow> nat \<Rightarrow> nat \<Rightarrow> (nat \<times> nat) list \<Rightarrow> nat list \<Rightarrow> Point list list
     \<Rightarrow> Point list list option" where
  "scanPixels d w h [] visited contours = Some contours"
| "scanPixels d w h (yx # rest) visited contours =
     (let y = fst yx; x = snd yx; index = y * w + x in
      if aget d index = Some 255 \<and> falsy (aget visited index) then
        (case floodFill d w h (visited[index := 1]) [\<lparr>pt_x = int x, pt_y = int y\<rparr>] [] of
           None \<Rightarrow> None
         | Some (visited', contour) \<Rightarrow> scanPixels d w h rest visited' (contours @ [contour]))
      else scanPixels d w h rest visited contours)"

definition allPixels :: "nat \<Rightarrow> nat \<Rightarrow> (nat \<times> nat) list" where
  "allPixels w h = concat (map (\<lambda>y. map (\<lambda>x. (y, x)) [0 ..< w]) [0 ..< h])"

definition findContours :: "Buffer \<Rightarrow> Point list list option" where
  "findContours binaryImage =
     (let w = width binaryImage; h = height binaryImage
      in scanPixels (data binaryImage) w h (allPixels w h) (replicate (w * h) 0) [])"

section \<open>Box geometry\<close>

text \<open>
  The loop of \<^verbatim>\<open>getBoundingRect\<close> on \<open>(minX, minY, maxX, maxY)\<close>. The source starts
  from \<open>(\<infinity>, \<infinity>, -\<infinity>, -\<infinity>)\<close>, which the first point replaces by its own
  coordinates; the model starts from there.
\<close>

definition boundStep :: "int \<times> int \<times> int \<times> int \<Rightarrow> Point \<Rightarrow> int \<times> int \<times> int \<times> int" where
  "boundStep acc point =
     (case acc of (minX, minY, maxX, maxY) \<Rightarrow>
        (if pt_x point < minX then pt_x point else minX,
         if pt_y point < minY then pt_y point else minY,
         if pt_x point > maxX then pt_x point else maxX,
         if pt_y point > maxY then pt_y point else maxY))"

fun getBoundingRect :: "Point list \<Rightarrow> CropBox" where
  "getBoundingRect [] = \<lparr>box_x = 0, box_y = 0, box_w = 0, box_h = 0\<rparr>"
| "getBoundingRect (p # ps) =
     (case foldl boundStep (pt_x p, pt_y p, pt_x p, pt_y p) ps of
        (minX, minY, maxX, maxY) \<Rightarrow>
          \<lparr>box_x = of_int minX, box_y = of_int minY,
           box_w = of_int (maxX - minX), box_h = of_int (maxY - minY)\<rparr>)"

definition mergeRects :: "CropBox \<Rightarrow> CropBox \<Rightarrow> CropBox" where
  "mergeRects r1 r2 =
     (let x = min (box_x r1) (box_x r2);
          y = min (box_y r1) (box_y r2);
          w = max (box_x r1 + box_w r1) (box_x r2 + box_w r2) - x;
          h = max (box_y r1 + box_h r1) (box_y r2 + box_h r2) - y
      in \<lparr>box_x = x, box_y = y, box_w = w, box_h = h\<rparr>)"

text \<open>
  \<^verbatim>\<open>shouldMerge\<close>, with every sum and difference rounded as the code rounds it.
  \<open>expandedX\<close>, \<open>expandedY\<close>, \<open>expandedW\<close> and \<open>expandedH\<close> are the fields of the
  source's \<^verbatim>\<open>expandedR1\<close>; \<^verbatim>\<open>a > b\<close> is \<open>lt64 b a\<close>.
\<close>

definition shouldMerge :: "CropBox \<Rightarrow> CropBox \<Rightarrow> f64 \<Rightarrow> bool" where
  "shouldMerge r1 r2 margin =
     (let expandedX = sub64 (Finite (box_x r1)) margin;
          expandedY = sub64 (Finite (box_y r1)) margin;
          expandedW = add64 (Finite (box_w r1)) (mul64 (Finite 2) margin);
          expandedH = add64 (Finite (box_h r1)) (mul64 (Finite 2) margin)
      in lt64 expandedX (add64 (Finite (box_x r2)) (Finite (box_w r2))) \<and>
         lt64 (Finite (box_x r2)) (add64 expandedX expandedW) \<and>
         lt64 expandedY (add64 (Finite (box_y r2)) (Finite (box_h r2))) \<and>
         lt64 (Finite (box_y r2)) (add64 expandedY expandedH))"

text \<open>
  The two \<^verbatim>\<open>for\<close> loops of \<^verbatim>\<open>mergeNearbyBoxes\<close> look for the first pair
  \<open>i < j\<close>, in the order of the scan, that should be merged: \<open>scanJ\<close> is the inner
  loop for a fixed \<open>i\<close>, \<open>scanI\<close> the outer loop over the remaining values of \<open>i\<close>.
\<close>

definition scanJ :: "CropBox list \<Rightarrow> f64 \<Rightarrow> nat \<Rightarrow> nat option" where
  "scanJ boxes margin i =
     List.find (\<lambda>j. shouldMerge (boxes ! i) (boxes ! j) margin) [Suc i ..< length boxes]"

fun scanI :: "CropBox list \<Rightarrow> f64 \<Rightarrow> nat list \<Rightarrow> (nat \<times> nat) option" where
  "scanI boxes margin [] = None"
| "scanI boxes margin (i # is) =
     (case scanJ boxes margin i of
        Some j \<Rightarrow> Some (i, j)
      | None \<Rightarrow> scanI boxes margin is)"

definition firstMergeable :: "CropBox list \<Rightarrow> f64 \<Rightarrow> (nat \<times> nat) option" where
  "firstMergeable boxes margin = scanI boxes margin [0 ..< length boxes]"

text \<open>\<^verbatim>\<open>boxes.splice(j, 1)\<close>\<close>

definition splice1 :: "nat \<Rightarrow> 'a list \<Rightarrow> 'a list" where
  "splice1 j xs = take j xs @ drop (Suc j) xs"

lemma scanJ_Some: "scanJ boxes margin i = Some j \<Longrightarrow> i < j \<and> j < length boxes"
  unfolding scanJ_def by (auto simp: find_Some_iff)

lemma scanI_Some:
  "scanI boxes margin is = Some (i, j) \<Longrightarrow> i \<in> set is \<and> i < j \<and> j < length boxes"
  by (induction "is") (auto split: option.splits dest: scanJ_Some)

lemma firstMergeable_Some:
  "firstMergeable boxes margin = Some (i, j) \<Longrightarrow> i < j \<and> j < length boxes"
  unfolding firstMergeable_def by (auto dest: scanI_Some)

lemma length_splice1: "j < length xs \<Longrightarrow> length (splice1 j xs) = length xs - 1"
  unfolding splice1_def by simp

text \<open>
  The \<^verbatim>\<open>while (merged)\<close> loop: one pass of the scan; when it finds a pair, box \<open>i\<close>
  becomes the merge of the two, box \<open>j\<close> is spliced out and the scan starts again.
\<close>

function mergeLoop :: "CropBox list \<Rightarrow> f64 \<Rightarrow> CropBox list" where
  "mergeLoop boxes margin =
     (case firstMergeable boxes margin of
        None \<Rightarrow> boxes
      | Some (i, j) \<Rightarrow>
          mergeLoop (splice1 j (boxes[i := mergeRects (boxes ! i) (boxes ! j)])) margin)"
  by pat_completeness auto
termination
proof (relation "measure (\<lambda>(boxes, margin). length boxes)")
  show "wf (measure (\<lambda>(boxes, margin). length boxes))" by simp
next
  fix boxes :: "CropBox list" and margin :: f64 and x2 i j
  assume "firstMergeable boxes margin = Some x2" and "(i, j) = x2"
  then have "i < j \<and> j < length boxes"
    using firstMergeable_Some by metis
  then show "((splice1 j (boxes[i := mergeRects (boxes ! i) (boxes ! j)]), margin),
              (boxes, margin)) \<in> measure (\<lambda>(boxes, margin). length boxes)"
    by (auto simp: length_splice1)
qed

declare mergeLoop.simps [simp del]

text \<open>
  The merge distance, \<^verbatim>\<open>Math.min(imgWidth, imgHeight) * 0.05\<close>: the literal is the
  binary64 number nearest to 0.05, and the product is rounded.
\<close>

definition mergeMargin :: "real \<Rightarrow> real \<Rightarrow> f64" where
  "mergeMargin imgWidth imgHeight = mul64 (Finite (min imgWidth imgHeight)) (round64 (5 / 100))"

definition mergeNearbyBoxes :: "CropBox list \<Rightarrow> real \<Rightarrow> real \<Rightarrow> CropBox list" where
  "mergeNearbyBoxes boxes imgWidth imgHeight =
     (if length boxes < 2 then boxes
      else let margin = mergeMargin imgWidth imgHeight
           in mergeLoop boxes margin)"

section \<open>Crop candidate selection\<close>

definition thresholds :: "real list" where
  "thresholds = [30, 70]"

text \<open>The loop over the thresholds, which appends each run's contours to \<^verbatim>\<open>allContours\<close>.\<close>

fun collectContours :: "Buffer \<Rightarrow> real list \<Rightarrow> Point list list \<Rightarrow> Point list list option" where
  "collectContours blurredData [] allContours = Some allContours"
| "collectContours blurredData (threshold # rest) allContours =
     (let edgeData = cannyEdgeDetector blurredData threshold in
      case findContours edgeData of
        None \<Rightarrow> None
      | Some contours \<Rightarrow> collectContours blurredData rest (allContours @ contours))"

text \<open>The callback of \<^verbatim>\<open>reduce\<close>.\<close>

definition largerBox :: "CropBox \<Rightarrow> CropBox \<Rightarrow> CropBox" where
  "largerBox largest current =
     (if box_w current * box_h current > box_w largest * box_h largest then current else largest)"

text \<open>
  The body of the \<^verbatim>\<open>try\<close> block from the pixels read off the canvas down to the
  choice of \<^verbatim>\<open>bestBox\<close>: \<open>Some (Some b)\<close> when box \<open>b\<close> is chosen, \<open>Some None\<close>
  when one of the three earlier \<^verbatim>\<open>return null\<close> is taken, \<open>None\<close> when a loop does
  not end. \<^verbatim>\<open>reduce\<close> without an initial value starts from the first box; it is
  only reached on a non-empty array.
\<close>

definition selectBestBox :: "Buffer \<Rightarrow> CropBox option option" where
  "selectBestBox imageData =
     (let w = width imageData; h = height imageData;
          grayData = toGrayscale imageData;
          blurredData = gaussianBlur grayData
      in case collectContours blurredData thresholds [] of
           None \<Rightarrow> None
         | Some allContours \<Rightarrow>
             Some (if length allContours = 0 then None
                   else
                     (let boxes = map getBoundingRect allContours;
                          minArea = (real w * real h) * (15 / 1000);
                          validBoxes = filter (\<lambda>box. box_w box * box_h box > minArea) boxes
                      in if length validBoxes = 0 then None
                         else
                           (let mergedBoxes = mergeNearbyBoxes validBoxes (real w) (real h)
                            in case mergedBoxes of
                                 [] \<Rightarrow> None
                               | first # others \<Rightarrow> Some (foldl largerBox first others)))))"

text \<open>
  The final sanity check on the chosen box. It is only reached with a box inside an
  image of positive area, so the division is by a positive number.
\<close>

definition sanityCheck :: "CropBox \<Rightarrow> nat \<Rightarrow> nat \<Rightarrow> outcome" where
  "sanityCheck bestBox w h =
     (let bestBoxArea = box_w bestBox * box_h bestBox;
          imageArea = real w * real h
      in if bestBoxArea / imageArea > 95 / 100 then Null else Box bestBox)"

text \<open>
  The \<^verbatim>\<open>try\<close> block. \<open>ctx\<close> says whether the canvas gave a 2D context; \<open>img\<close> is
  the image as \<^verbatim>\<open>getImageData\<close> reads it off the canvas, with the image's natural
  width and height.
\<close>

definition suggestCropBody :: "bool \<Rightarrow> Buffer \<Rightarrow> outcome option" where
  "suggestCropBody ctx img =
     (if \<not> ctx then Some (Threw CanvasContextError)
      else case selectBestBox img of
             None \<Rightarrow> None
           | Some None \<Rightarrow> Some Null
           | Some (Some bestBox) \<Rightarrow> Some (sanityCheck bestBox (width img) (height img)))"

text \<open>The whole function: the \<^verbatim>\<open>catch\<close> clause turns every error thrown in the body into \<^verbatim>\<open>null\<close>.\<close>

definition suggestCropWithEdgeDetection :: "bool \<Rightarrow> Buffer \<Rightarrow> outcome option" where
  "suggestCropWithEdgeDetection ctx img =
     (case suggestCropBody ctx img of
        None \<Rightarrow> None
      | Some (Threw e) \<Rightarrow> Some Null
      | Some r \<Rightarrow> Some r)"

section \<open>Enhancement engine\<close>

text \<open>
  Step 2 of \<^verbatim>\<open>enhanceImage\<close>, the sharpening convolution: one tap \<open>(k, l)\<close> for
  the pixel at byte offset \<open>i\<close> and channel \<open>c\<close>, then the channel, the pixel
  (three channels and the alpha byte) and the whole array. \<open>acc\<close> is the source's
  \<^verbatim>\<open>sum\<close>, \<open>None\<close> once a read was \<^verbatim>\<open>undefined\<close>; \<open>d\<close> is its
  \<^verbatim>\<open>data\<close>.
\<close>

definition sharpenKernel :: "int list" where
  "sharpenKernel = [0, -1, 0, -1, 5, -1, 0, -1, 0]"

definition sharpenTap ::
  "nat list \<Rightarrow> nat \<Rightarrow> nat \<Rightarrow> nat \<Rightarrow> nat \<Rightarrow> int option \<Rightarrow> int \<times> int \<Rightarrow> int option" where
  "sharpenTap d w h i c acc kl =
     (let k = fst kl; l = snd kl;
          x = int ((i div 4) mod w) + l;
          y = int ((i div 4) div w) + k
      in if 0 \<le> x \<and> x < int w \<and> 0 \<le> y \<and> y < int h then
           (let p = (y * int w + x) * 4 in
            case (acc, ageti d (p + int c)) of
              (Some s, Some v) \<Rightarrow> Some (s + int v * sharpenKernel ! nat ((k + 1) * 3 + (l + 1)))
            | _ \<Rightarrow> None)
         else acc)"

definition sharpenChannel :: "nat list \<Rightarrow> nat \<Rightarrow> nat \<Rightarrow> nat \<Rightarrow> nat list \<Rightarrow> nat \<Rightarrow> nat list" where
  "sharpenChannel d w h i sharpenedData c =
     (let acc = foldl (sharpenTap d w h i c) (Some 0) kernelTaps
      in sharpenedData[i + c := storeU8 (map_option (\<lambda>s. max 0 (min 255 (real_of_int s))) acc)])"

definition sharpenPixel :: "nat list \<Rightarrow> nat \<Rightarrow> nat \<Rightarrow> nat list \<Rightarrow> nat \<Rightarrow> nat list" where
  "sharpenPixel d w h sharpenedData k =
     (let i = 4 * k;
          s = foldl (sharpenChannel d w h i) sharpenedData [0, 1, 2]
      in s[i + 3 := storeU8 (map_option real (aget d (i + 3)))])"

definition sharpen :: "nat list \<Rightarrow> nat \<Rightarrow> nat \<Rightarrow> nat list" where
  "sharpen d w h =
     foldl (sharpenPixel d w h) (replicate (length d) 0) [0 ..< (length d + 3) div 4]"

text \<open>
  Step 3 of \<^verbatim>\<open>enhanceImage\<close>: the contrast and brightness loop, which rewrites the
  sharpened array in place.
\<close>

definition adjust :: "nat option \<Rightarrow> real option" where
  "adjust v = map_option (\<lambda>n. max 0 (min 255 ((105 / 100) * real n + 10))) v"

definition contrastPixel :: "nat list \<Rightarrow> nat \<Rightarrow> nat list" where
  "contrastPixel d k =
     (let i = 4 * k;
          d1 = d[i := storeU8 (adjust (aget d i))];
          d2 = d1[i + 1 := storeU8 (adjust (aget d1 (i + 1)))]
      in d2[i + 2 := storeU8 (adjust (aget d2 (i + 2)))])"

definition contrastBrightness :: "nat list \<Rightarrow> nat list" where
  "contrastBrightness d = foldl contrastPixel d [0 ..< (length d + 3) div 4]"

text \<open>
  \<^verbatim>\<open>enhanceImage\<close>, from the decoded image to the canvas that is encoded at the end.
  The browser's part is a parameter: whether each of the two canvases gives a 2D
  context, and \<open>drawScaled img w h\<close>, the pixels read back after the image has been
  drawn, smoothed, onto a canvas of \<open>w\<close> by \<open>h\<close>. Decoding the blob and encoding the
  canvas are outside the model.
\<close>

definition enhanceStages :: "nat list \<Rightarrow> nat \<Rightarrow> nat \<Rightarrow> Buffer" where
  "enhanceStages d w h = \<lparr>data = contrastBrightness (sharpen d w h), width = w, height = h\<rparr>"

definition enhanceImage ::
  "bool \<Rightarrow> bool \<Rightarrow> (Buffer \<Rightarrow> nat \<Rightarrow> nat \<Rightarrow> nat list) \<Rightarrow> Buffer \<Rightarrow> error + Buffer" where
  "enhanceImage ctx upscaledCtx drawScaled img =
     (let w = width img; h = height img; upscaleFactor = 2 in
      if \<not> ctx then Inl EnhancementContextError
      else if h < 512 \<or> w < 512 then
        (let upscaledW = w * upscaleFactor; upscaledH = h * upscaleFactor in
         if \<not> upscaledCtx then Inl UpscalingContextError
         else Inr (enhanceStages (drawScaled img upscaledW upscaledH) upscaledW upscaledH))
      else Inr (enhanceStages (data img) w h))"

section \<open>Vocabulary of the properties\<close>

text \<open>
  A well-formed RGBA buffer: four bytes for every pixel.
\<close>

definition wellFormedRGBA :: "Buffer \<Rightarrow> bool" where
  "wellFormedRGBA img \<longleftrightarrow>
     length (data img) = 4 * (width img * height img) \<and> list_all (\<lambda>v. v \<le> 255) (data img)"

text \<open>What the contrast and brightness loop stores for a channel that held \<open>v\<close>.\<close>

definition contrastValue :: "nat \<Rightarrow> nat" where
  "contrastValue v = toUint8Clamp (max 0 (min 255 ((105 / 100) * real v + 10)))"

text \<open>A transparent black image of \<open>w\<close> by \<open>h\<close> pixels.\<close>

definition blankImage :: "nat \<Rightarrow> nat \<Rightarrow> Buffer" where
  "blankImage w h = \<lparr>data = replicate (4 * w * h) 0, width = w, height = h\<rparr>"

text \<open>
  A point is in range when it is a pixel of the image; \<open>pixelIndex\<close> is its place in
  the row-major arrays. An edge pixel is a pixel whose mask value is 255, and a pixel
  is marked when \<^verbatim>\<open>visited\<close> holds a non-zero value for it.
\<close>

definition inRange :: "nat \<Rightarrow> nat \<Rightarrow> Point \<Rightarrow> bool" where
  "inRange w h p \<longleftrightarrow> 0 \<le> pt_x p \<and> pt_x p < int w \<and> 0 \<le> pt_y p \<and> pt_y p < int h"

definition pixelIndex :: "nat \<Rightarrow> Point \<Rightarrow> nat" where
  "pixelIndex w p = nat (pt_y p * int w + pt_x p)"

definition edgeAt :: "nat list \<Rightarrow> nat \<Rightarrow> nat \<Rightarrow> Point \<Rightarrow> bool" where
  "edgeAt d w h p \<longleftrightarrow> inRange w h p \<and> aget d (pixelIndex w p) = Some 255"

text \<open>
  An edge pixel of a mask: a pixel of the image whose mask value is 255.
\<close>

definition isEdgePixel :: "Buffer \<Rightarrow> Point \<Rightarrow> bool" where
  "isEdgePixel m p = edgeAt (data m) (width m) (height m) p"

definition marked :: "nat list \<Rightarrow> nat \<Rightarrow> nat \<Rightarrow> Point \<Rightarrow> bool" where
  "marked visited w h p \<longleftrightarrow> inRange w h p \<and> \<not> falsy (aget visited (pixelIndex w p))"

text \<open>
  The invariant of one flood fill that started with the pixels \<open>V0\<close> marked:
  \<open>found\<close> is the contour so far followed by the queue.
\<close>

definition fillInv :: "nat list \<Rightarrow> nat \<Rightarrow> nat \<Rightarrow> Point set \<Rightarrow> nat list \<Rightarrow> Point list \<Rightarrow> bool" where
  "fillInv d w h V0 visited found \<longleftrightarrow>
     length visited = w * h \<and> distinct found \<and> (\<forall>p \<in> set found. edgeAt d w h p) \<and>
     (\<forall>p. marked visited w h p \<longleftrightarrow> p \<in> V0 \<or> p \<in> set found) \<and> V0 \<inter> set found = {}"

text \<open>
  The invariant of the scan: the contours found so far are pairwise disjoint lists of
  distinct edge pixels, none of them empty, and the marked pixels are exactly their
  points.
\<close>

definition scanInv :: "nat list \<Rightarrow> nat \<Rightarrow> nat \<Rightarrow> nat list \<Rightarrow> Point list list \<Rightarrow> bool" where
  "scanInv d w h visited contours \<longleftrightarrow>
     length visited = w * h \<and> distinct (concat contours) \<and>
     (\<forall>p \<in> set (concat contours). edgeAt d w h p) \<and>
     (\<forall>p. marked visited w h p \<longleftrightarrow> p \<in> set (concat contours)) \<and>
     [] \<notin> set contours"

text \<open>
  A contour as the boxes need it: not empty, and made of pixels of the image.
\<close>

definition contourOK :: "nat \<Rightarrow> nat \<Rightarrow> Point list \<Rightarrow> bool" where
  "contourOK w h c \<longleftrightarrow> c \<noteq> [] \<and> (\<forall>p \<in> set c. inRange w h p)"

text \<open>
  What the selection keeps true of every candidate box, for an image of \<open>W\<close> by
  \<open>H\<close> and the area threshold \<open>minArea\<close>.
\<close>

definition goodBox :: "real \<Rightarrow> real \<Rightarrow> real \<Rightarrow> CropBox \<Rightarrow> bool" where
  "goodBox W H minArea b \<longleftrightarrow>
     0 < box_w b \<and> 0 < box_h b \<and> 0 \<le> box_x b \<and> 0 \<le> box_y b \<and>
     box_x b + box_w b \<le> W \<and> box_y b + box_h b \<le> H \<and> minArea < box_w b * box_h b"

text \<open>
  The values on which the rounding of \<open>shouldMerge\<close> is harmless: boxes whose fields
  are integers of magnitude at most \<open>2 ^ 31\<close>, and margins between 0 and \<open>2 ^ 31\<close>
  that are integers or lie at least \<open>1 / 1024\<close> from every integer.
\<close>

definition smallInteger :: "real \<Rightarrow> bool" where
  "smallInteger v \<longleftrightarrow> v \<in> \<int> \<and> \<bar>v\<bar> \<le> 2 ^ 31"

definition integerBox :: "CropBox \<Rightarrow> bool" where
  "integerBox b \<longleftrightarrow>
     smallInteger (box_x b) \<and> smallInteger (box_y b) \<and>
     smallInteger (box_w b) \<and> smallInteger (box_h b)"

definition awayFromIntegers :: "real \<Rightarrow> bool" where
  "awayFromIntegers m \<longleftrightarrow> (\<forall>n::int. 1 / 1024 \<le> \<bar>m - of_int n\<bar>)"

definition safeMargin :: "real \<Rightarrow> bool" where
  "safeMargin m \<longleftrightarrow> 0 \<le> m \<and> m \<le> 2 ^ 31 \<and> (m \<in> \<int> \<or> awayFromIntegers m)"

text \<open>The four tests of \<open>shouldMerge\<close> in exact arithmetic.\<close>

definition shouldMergeExact :: "CropBox \<Rightarrow> CropBox \<Rightarrow> real \<Rightarrow> bool" where
  "shouldMergeExact r1 r2 m \<longleftrightarrow>
     box_x r1 - m < box_x r2 + box_w r2 \<and> box_x r2 < box_x r1 + box_w r1 + m \<and>
     box_y r1 - m < box_y r2 + box_h r2 \<and> box_y r2 < box_y r1 + box_h r1 + m"

text \<open>
  Two unit boxes \<open>2 ^ 53\<close> apart, on which a margin of \<open>2 ^ 53\<close> is rounded away,
  and two small boxes three pixels apart.
\<close>

definition boxA :: CropBox where
  "boxA = \<lparr>box_x = 0, box_y = 0, box_w = 1, box_h = 1\<rparr>"

definition boxB :: CropBox where
  "boxB = \<lparr>box_x = 2 ^ 53, box_y = 0, box_w = 1, box_h = 1\<rparr>"

text \<open>
  Two boxes with fractional fields: \<open>box_x boxE\<close> is the binary64 number nearest to
  0.7 and \<open>box_w boxF\<close> the one nearest to 0.2.
\<close>

definition boxE :: CropBox where
  "boxE = \<lparr>box_x = 3152519739159347 / 2 ^ 52, box_y = 0, box_w = 2, box_h = 1\<rparr>"

definition boxF :: CropBox where
  "boxF = \<lparr>box_x = 0, box_y = 0, box_w = 3602879701896397 / 2 ^ 54, box_h = 1\<rparr>"

definition boxC :: CropBox where
  "boxC = \<lparr>box_x = 0, box_y = 0, box_w = 3, box_h = 3\<rparr>"

definition boxD :: CropBox where
  "boxD = \<lparr>box_x = 4, box_y = 1, box_w = 2, box_h = 5\<rparr>"

text \<open>
  A white, opaque image of 4 by 4 pixels, and what each stage makes of it: the
  grayscale buffer, the blurred buffer (which is also the edge mask at both
  thresholds), the one contour and its bounding box.
\<close>

definition white4 :: Buffer where
  "white4 = \<lparr>data = replicate 64 255, width = 4, height = 4\<rparr>"

definition gray4 :: Buffer where
  "gray4 = \<lparr>data = replicate 16 255, width = 4, height = 4\<rparr>"

definition ring4 :: Buffer where
  "ring4 = \<lparr>data = [0,0,0,0, 0,255,255,0, 0,255,255,0, 0,0,0,0], width = 4, height = 4\<rparr>"

definition square4 :: "Point list" where
  "square4 = [\<lparr>pt_x = 1, pt_y = 1\<rparr>, \<lparr>pt_x = 2, pt_y = 1\<rparr>, \<lparr>pt_x = 1, pt_y = 2\<rparr>, \<lparr>pt_x = 2, pt_y = 2\<rparr>]"

definition unitBox :: CropBox where
  "unitBox = \<lparr>box_x = 1, box_y = 1, box_w = 1, box_h = 1\<rparr>"

text \<open>
  A mask of 3 by 2 pixels with two components.
\<close>

definition mask32 :: Buffer where
  "mask32 = \<lparr>data = [255, 0, 255, 0, 0, 255], width = 3, height = 2\<rparr>"

section \<open>Properties of the binary64 arithmetic\<close>

lemma roundHalfEven_error: "\<bar>of_int (roundHalfEven v) - v\<bar> \<le> 1 / 2"
  unfolding roundHalfEven_def Let_def by (auto simp: abs_if) linarith+

lemma roundHalfEven_of_int [simp]: "roundHalfEven (of_int n) = n"
  by (simp add: roundHalfEven_def)

lemma roundHalfEven_near:
  assumes "0 \<le> f" "f < 1 / 2"
  shows "roundHalfEven (of_int n + f) = n"
proof -
  have "\<lfloor>of_int n + f\<rfloor> = n" using assms by (intro floor_unique) simp_all
  then show ?thesis using assms by (simp add: roundHalfEven_def)
qed

lemma roundHalfEven_nonneg: "0 \<le> v \<Longrightarrow> 0 \<le> roundHalfEven v"
  unfolding roundHalfEven_def Let_def by auto

lemma quantum_pos: "0 < quantum v"
  by (simp add: quantum_def zero_less_power_int)

lemma powr_powi: "(2::real) powr (of_int e) = 2 powi e"
  by (simp add: powr_real_of_int')

lemma exponent64_eq:
  assumes "2 powi e \<le> \<bar>v\<bar>" "\<bar>v\<bar> < 2 powi (e + 1)" "- 1022 \<le> e"
  shows "exponent64 v = e"
proof -
  have pos: "0 < \<bar>v\<bar>" using assms(1) zero_less_power_int [of "2::real" e] by linarith
  then have "v \<noteq> 0" by auto
  moreover have "\<lfloor>log 2 \<bar>v\<bar>\<rfloor> = e"
  proof -
    have "2 powr (of_int e) \<le> \<bar>v\<bar>" using assms(1) by (simp only: powr_powi)
    moreover have "\<bar>v\<bar> < 2 powr (of_int (e + 1))" using assms(2) by (simp only: powr_powi)
    ultimately show ?thesis using floor_log_eq_powr_iff [OF pos, of 2 e] by simp
  qed
  ultimately show ?thesis using assms(3) by (simp add: exponent64_def)
qed

lemma exponent64_le:
  assumes "\<bar>v\<bar> \<le> 2 powi B" "- 1022 \<le> B"
  shows "exponent64 v \<le> B"
proof (cases "v = 0")
  case True
  then show ?thesis using assms(2) by (simp add: exponent64_def)
next
  case False
  then have pos: "0 < \<bar>v\<bar>" by simp
  have "log 2 \<bar>v\<bar> \<le> log 2 (2 powr (of_int B))"
    using assms(1) pos by (simp add: powr_powi)
  also have "\<dots> = of_int B" by simp
  finally have "\<lfloor>log 2 \<bar>v\<bar>\<rfloor> \<le> B" by (simp add: floor_le_iff)
  then show ?thesis using assms(2) False by (simp add: exponent64_def)
qed

text \<open>Rounding moves a number by at most half a quantum.\<close>

lemma rnd_error: "\<bar>rnd v - v\<bar> \<le> quantum v / 2"
proof -
  let ?q = "quantum v"
  have q: "0 < ?q" by (rule quantum_pos)
  have "rnd v - v = (of_int (roundHalfEven (v / ?q)) - v / ?q) * ?q"
    using q by (simp add: rnd_def field_simps)
  then have "\<bar>rnd v - v\<bar> = \<bar>of_int (roundHalfEven (v / ?q)) - v / ?q\<bar> * ?q"
    using q by (simp add: abs_mult)
  also have "\<dots> \<le> (1 / 2) * ?q"
    using roundHalfEven_error [of "v / ?q"] q by (intro mult_right_mono) simp_all
  finally show ?thesis by simp
qed

lemma quantum_le:
  assumes "\<bar>v\<bar> \<le> 2 powi B" "- 1022 \<le> B"
  shows "quantum v \<le> 2 powi (B - 52)"
  unfolding quantum_def
  using exponent64_le [OF assms] by (intro power_int_increasing) simp_all

text \<open>Integers up to \<open>2 ^ 52\<close> are binary64 numbers: rounding leaves them as they are.\<close>

lemma rnd_int:
  assumes "v \<in> \<int>" "\<bar>v\<bar> \<le> 2 ^ 52"
  shows "rnd v = v"
proof -
  from assms(1) obtain n where v: "v = of_int n" by (auto elim: Ints_cases)
  have "\<bar>v\<bar> \<le> 2 powi 52" using assms(2) by simp
  then have le: "exponent64 v \<le> 52" by (rule exponent64_le) simp
  define k where "k = nat (52 - exponent64 v)"
  have "exponent64 v - 52 = - int k" using le by (simp add: k_def)
  then have q: "quantum v = 1 / 2 ^ k"
    by (simp add: quantum_def power_int_minus_divide)
  have "v / quantum v = v * 2 ^ k" by (simp add: q)
  also have "\<dots> = of_int (n * 2 ^ k)" by (simp add: v)
  finally have "roundHalfEven (v / quantum v) = n * 2 ^ k" by (simp only: roundHalfEven_of_int)
  then have "rnd v = of_int (n * 2 ^ k) * (1 / 2 ^ k)" by (simp only: rnd_def q)
  then show ?thesis by (simp add: v)
qed

lemma round64_Finite:
  assumes "\<bar>v\<bar> \<le> 2 ^ 40"
  shows "round64 v = Finite (rnd v)"
proof -
  have "\<bar>v\<bar> \<le> 2 powi 40" using assms by simp
  then have "quantum v \<le> 2 powi (40 - 52)" by (rule quantum_le) simp
  then have "quantum v \<le> 1" by (simp add: power_int_minus_divide)
  with rnd_error [of v] have "\<bar>rnd v - v\<bar> \<le> 1" by linarith
  with assms have "\<bar>rnd v\<bar> \<le> 2 ^ 40 + 1" by linarith
  also have "(2::real) ^ 40 + 1 < 2 ^ 41" by simp
  also have "(2::real) ^ 41 \<le> 2 ^ 1024" by (rule power_increasing) simp_all
  finally have "\<bar>rnd v\<bar> < 2 ^ 1024" .
  then have "\<not> 2 ^ 1024 \<le> rnd v" "\<not> rnd v \<le> - (2 ^ 1024)" by linarith+
  then show ?thesis by (simp add: round64_def Let_def)
qed

lemma round64_small:
  assumes "\<bar>v\<bar> \<le> 2 ^ 33"
  shows "\<exists>e. round64 v = Finite (v + e) \<and> \<bar>e\<bar> \<le> 1 / 2 ^ 20 \<and> (v \<in> \<int> \<longrightarrow> e = 0)"
proof -
  have "\<bar>v\<bar> \<le> 2 ^ 40"
    using assms power_increasing [of 33 40 "2::real"] by simp
  then have fin: "round64 v = Finite (v + (rnd v - v))" by (simp add: round64_Finite)
  have "\<bar>v\<bar> \<le> 2 powi 33" using assms by simp
  then have "quantum v \<le> 2 powi (33 - 52)" by (rule quantum_le) simp
  then have "quantum v \<le> 1 / 2 ^ 19" by (simp add: power_int_minus_divide)
  with rnd_error [of v] have err: "\<bar>rnd v - v\<bar> \<le> 1 / 2 ^ 20" by simp
  have "rnd v - v = 0" if "v \<in> \<int>"
  proof -
    have "\<bar>v\<bar> \<le> 2 ^ 52" using assms power_increasing [of 33 52 "2::real"] by simp
    with that show ?thesis by (simp add: rnd_int)
  qed
  with fin err show ?thesis by blast
qed

text \<open>
  One axis of \<open>shouldMerge\<close> on small integers and a safe margin: both tests come
  out as in exact arithmetic, since the four rounding errors together stay below the
  distance of the exact values from the integers they are compared with.
\<close>

lemma side_exact:
  assumes x: "smallInteger x" and w: "smallInteger w"
    and x': "smallInteger x'" and w': "smallInteger w'"
    and m: "safeMargin m"
  shows "lt64 (sub64 (Finite x) (Finite m)) (add64 (Finite x') (Finite w')) \<longleftrightarrow>
           x - m < x' + w'"
    and "lt64 (Finite x')
           (add64 (sub64 (Finite x) (Finite m)) (add64 (Finite w) (mul64 (Finite 2) (Finite m))))
         \<longleftrightarrow> x' < x + w + m"
proof -
  have p: "(2::real) ^ 33 = 4 * 2 ^ 31" by simp
  from x w x' w' have ints: "x \<in> \<int>" "w \<in> \<int>" "x' \<in> \<int>" "w' \<in> \<int>"
    and bnd: "\<bar>x\<bar> \<le> 2 ^ 31" "\<bar>w\<bar> \<le> 2 ^ 31" "\<bar>x'\<bar> \<le> 2 ^ 31" "\<bar>w'\<bar> \<le> 2 ^ 31"
    by (simp_all add: smallInteger_def)
  from m have mb: "0 \<le> m" "m \<le> 2 ^ 31" and mc: "m \<in> \<int> \<or> awayFromIntegers m"
    by (simp_all add: safeMargin_def)
  have one: "(3::real) \<le> 2 ^ 31" by simp
  \<comment> \<open>the right-hand side of the first test\<close>
  have "\<bar>x' + w'\<bar> \<le> 2 ^ 33" using bnd p by linarith
  then obtain e0 where r0: "round64 (x' + w') = Finite (x' + w' + e0)"
    and b0: "\<bar>e0\<bar> \<le> 1 / 2 ^ 20"
    and z0: "x' + w' \<in> \<int> \<longrightarrow> e0 = 0" using round64_small by blast
  from ints have "x' + w' \<in> \<int>" by simp
  with z0 r0 have r0: "round64 (x' + w') = Finite (x' + w')" by simp
  \<comment> \<open>the expanded left edge\<close>
  have "\<bar>x - m\<bar> \<le> 2 ^ 33" using bnd mb p by linarith
  then obtain e1 where r1: "round64 (x - m) = Finite (x - m + e1)"
    and b1: "\<bar>e1\<bar> \<le> 1 / 2 ^ 20" and z1: "x - m \<in> \<int> \<longrightarrow> e1 = 0" using round64_small by blast
  \<comment> \<open>twice the margin\<close>
  have "\<bar>2 * m\<bar> \<le> 2 ^ 33" using mb p by linarith
  then obtain e2 where r2: "round64 (2 * m) = Finite (2 * m + e2)"
    and b2: "\<bar>e2\<bar> \<le> 1 / 2 ^ 20" and z2: "2 * m \<in> \<int> \<longrightarrow> e2 = 0" using round64_small by blast
  have s20: "(1::real) / 2 ^ 20 \<le> 1" by simp
  \<comment> \<open>the expanded width\<close>
  have "\<bar>w + (2 * m + e2)\<bar> \<le> 2 ^ 33" using bnd mb b2 p one s20 by linarith
  then obtain e3 where r3: "round64 (w + (2 * m + e2)) = Finite (w + (2 * m + e2) + e3)"
    and b3: "\<bar>e3\<bar> \<le> 1 / 2 ^ 20" and z3: "w + (2 * m + e2) \<in> \<int> \<longrightarrow> e3 = 0"
    using round64_small by blast
  \<comment> \<open>the expanded right edge\<close>
  have "\<bar>(x - m + e1) + (w + (2 * m + e2) + e3)\<bar> \<le> 2 ^ 33"
    using bnd mb b1 b2 b3 p one s20 by linarith
  then obtain e4 where
    r4: "round64 ((x - m + e1) + (w + (2 * m + e2) + e3)) =
           Finite ((x - m + e1) + (w + (2 * m + e2) + e3) + e4)"
    and b4: "\<bar>e4\<bar> \<le> 1 / 2 ^ 20"
    and z4: "(x - m + e1) + (w + (2 * m + e2) + e3) \<in> \<int> \<longrightarrow> e4 = 0"
    using round64_small by blast
  have left: "sub64 (Finite x) (Finite m) = Finite (x - m + e1)"
    using r1 by (simp add: sub64_def)
  have right: "add64 (sub64 (Finite x) (Finite m)) (add64 (Finite w) (mul64 (Finite 2) (Finite m)))
                 = Finite (x + w + m + (e1 + e2 + e3 + e4))"
    using r1 r2 r3 r4 by (simp add: sub64_def algebra_simps)
  have t1: "lt64 (sub64 (Finite x) (Finite m)) (add64 (Finite x') (Finite w')) \<longleftrightarrow>
              x - m + e1 < x' + w'"
    using left r0 by simp
  have t2: "lt64 (Finite x')
              (add64 (sub64 (Finite x) (Finite m)) (add64 (Finite w) (mul64 (Finite 2) (Finite m))))
            \<longleftrightarrow> x' < x + w + m + (e1 + e2 + e3 + e4)"
    using right by simp
  from mc show "lt64 (sub64 (Finite x) (Finite m)) (add64 (Finite x') (Finite w')) \<longleftrightarrow>
           x - m < x' + w'"
  proof
    assume "m \<in> \<int>"
    with ints have "x - m \<in> \<int>" by simp
    with z1 t1 show ?thesis by simp
  next
    assume away: "awayFromIntegers m"
    from ints obtain n where n: "x - (x' + w') = of_int n"
      by (metis Ints_add Ints_diff Ints_cases)
    from away have "1 / 1024 \<le> \<bar>m - of_int n\<bar>" by (simp add: awayFromIntegers_def)
    with n have "1 / 1024 \<le> \<bar>(x - m) - (x' + w')\<bar>" by (simp add: abs_minus_commute algebra_simps)
    moreover have "(1::real) / 2 ^ 20 < 1 / 1024" by simp
    ultimately show ?thesis using b1 t1 by (simp only: t1) linarith
  qed
  from mc show "lt64 (Finite x')
           (add64 (sub64 (Finite x) (Finite m)) (add64 (Finite w) (mul64 (Finite 2) (Finite m))))
         \<longleftrightarrow> x' < x + w + m"
  proof
    assume mi: "m \<in> \<int>"
    with ints have "x - m \<in> \<int>" "2 * m \<in> \<int>" by simp_all
    with z1 z2 have e12: "e1 = 0" "e2 = 0" by simp_all
    with ints mi z3 have e3: "e3 = 0" by simp
    with e12 ints mi z4 have "e4 = 0" by simp
    with e12 e3 t2 show ?thesis by simp
  next
    assume away: "awayFromIntegers m"
    from ints obtain n where n: "x' - (x + w) = of_int n"
      by (metis Ints_add Ints_diff Ints_cases)
    from away have "1 / 1024 \<le> \<bar>m - of_int n\<bar>" by (simp add: awayFromIntegers_def)
    with n have "1 / 1024 \<le> \<bar>(x + w + m) - x'\<bar>" by (simp add: algebra_simps)
    moreover have "4 * ((1::real) / 2 ^ 20) < 1 / 1024" by simp
    ultimately show ?thesis using b1 b2 b3 b4 by (simp only: t2) linarith
  qed
qed

lemma shouldMerge_exact:
  assumes "integerBox a" "integerBox b" "safeMargin m"
  shows "shouldMerge a b (Finite m) = shouldMergeExact a b m"
proof -
  from assms(1,2) have
    a: "smallInteger (box_x a)" "smallInteger (box_y a)" "smallInteger (box_w a)" "smallInteger (box_h a)"
    and b: "smallInteger (box_x b)" "smallInteger (box_y b)" "smallInteger (box_w b)" "smallInteger (box_h b)"
    by (simp_all add: integerBox_def)
  note sx = side_exact [OF a(1) a(3) b(1) b(3) assms(3)]
  note sy = side_exact [OF a(2) a(4) b(2) b(4) assms(3)]
  show ?thesis
    unfolding shouldMerge_def Let_def shouldMergeExact_def sx sy ..
qed

lemma shouldMergeExact_sym: "shouldMergeExact a b m = shouldMergeExact b a m"
  unfolding shouldMergeExact_def by auto

lemma round64_zero: "round64 0 = Finite 0"
  by (simp add: round64_def rnd_def roundHalfEven_def)

text \<open>Rounding a number whose binade is known, for evaluation.\<close>

lemma round64_eval:
  assumes "2 powi e \<le> \<bar>v\<bar>" "\<bar>v\<bar> < 2 powi (e + 1)" "- 1022 \<le> e" "e \<le> 100"
  shows "round64 v = Finite (of_int (roundHalfEven (v / 2 powi (e - 52))) * 2 powi (e - 52))"
proof -
  have ex: "exponent64 v = e" using assms(1-3) by (rule exponent64_eq)
  then have q: "quantum v = 2 powi (e - 52)" by (simp add: quantum_def)
  have "(2::real) powi (e + 1) \<le> 2 powi 101" using assms(4) by (intro power_int_increasing) simp_all
  with assms(2) have v: "\<bar>v\<bar> \<le> 2 ^ 101" by simp
  have "2 powi (e - 52) \<le> (2::real) powi 48" using assms(4) by (intro power_int_increasing) simp_all
  with q have "quantum v \<le> 2 ^ 48" by simp
  with rnd_error [of v] v have "\<bar>rnd v\<bar> \<le> 2 ^ 101 + 2 ^ 48" by linarith
  also have "(2::real) ^ 101 + 2 ^ 48 < 2 ^ 102" by simp
  also have "(2::real) ^ 102 \<le> 2 ^ 1024" by (rule power_increasing) simp_all
  finally have "\<bar>rnd v\<bar> < 2 ^ 1024" .
  then have "\<not> 2 ^ 1024 \<le> rnd v" "\<not> rnd v \<le> - (2 ^ 1024)" by linarith+
  then have "round64 v = Finite (rnd v)" by (simp add: round64_def Let_def)
  then show ?thesis by (simp add: rnd_def q)
qed

lemma r_1: "round64 1 = Finite 1"
  using round64_eval [of 0 1] by (simp add: roundHalfEven_def)

lemma r_m53: "round64 (- (2 ^ 53)) = Finite (- (2 ^ 53))"
  using round64_eval [of 53 "- (2 ^ 53)"] by (simp add: roundHalfEven_def)

lemma r_53: "round64 (2 ^ 53) = Finite (2 ^ 53)"
  using round64_eval [of 53 "2 ^ 53"] by (simp add: roundHalfEven_def)

lemma r_54: "round64 (2 ^ 54) = Finite (2 ^ 54)"
  using round64_eval [of 54 "2 ^ 54"] by (simp add: roundHalfEven_def)

lemma r_54_1: "round64 (1 + 2 ^ 54) = Finite (2 ^ 54)"
  using round64_eval [of 54 "1 + 2 ^ 54"] by (simp add: roundHalfEven_def)

lemma r_53_1: "round64 (2 ^ 53 + 1) = Finite (2 ^ 53)"
  using round64_eval [of 53 "2 ^ 53 + 1"] by (simp add: roundHalfEven_def)

lemma round64_lit005: "round64 (5 / 100) = Finite (3602879701896397 / 2 ^ 56)"
  using round64_eval [of "- 5" "5 / 100"] by (simp add: roundHalfEven_def)

lemma rnd_nonneg: "0 \<le> v \<Longrightarrow> 0 \<le> rnd v"
proof -
  assume "0 \<le> v"
  then have "0 \<le> v / quantum v" using quantum_pos [of v] by simp
  then have "0 \<le> roundHalfEven (v / quantum v)" by (rule roundHalfEven_nonneg)
  then show ?thesis using quantum_pos [of v] by (simp add: rnd_def)
qed

text \<open>
  The literal \<open>0.05\<close> is \<open>(1 + 2 ^ (- 54)) / 20\<close>, so twenty times a natural number
  \<open>j\<close>, multiplied by it, rounds back to \<open>j\<close>.
\<close>

lemma rnd_near_nat:
  fixes j :: nat
  assumes "1 \<le> j" "j \<le> 2 ^ 31"
  shows "rnd (real j * (1 + 1 / 2 ^ 54)) = real j"
proof -
  define v where "v = real j * (1 + 1 / 2 ^ 54)"
  from ex_power_ivl1 [of 2 j] assms(1)
  obtain e :: nat where e: "2 ^ e \<le> j" "j < 2 ^ (e + 1)" by auto
  from e(1) assms(2) have "(2::nat) ^ e \<le> 2 ^ 31" by linarith
  then have e31: "e \<le> 31" by (rule power_le_imp_le_exp [rotated]) simp
  have jr: "real j \<le> 2 ^ 31" using assms(2) by (metis of_nat_le_iff of_nat_numeral of_nat_power)
  have lo: "2 ^ e \<le> real j" using e(1) by (metis of_nat_le_iff of_nat_numeral of_nat_power)
  from e(2) have "j + 1 \<le> 2 ^ (e + 1)" by simp
  then have hi: "real j + 1 \<le> 2 ^ (e + 1)"
    by (metis of_nat_le_iff of_nat_numeral of_nat_power of_nat_add of_nat_1)
  have small: "real j / 2 ^ 54 < 1"
  proof -
    have "real j \<le> 2 ^ 31" by (rule jr)
    also have "(2::real) ^ 31 < 2 ^ 54" by simp
    finally show ?thesis by simp
  qed
  have v: "v = real j + real j / 2 ^ 54" by (simp add: v_def algebra_simps)
  have v0: "0 \<le> v" "real j \<le> v" by (simp_all add: v)
  have "2 powi (int e) \<le> \<bar>v\<bar>"
  proof -
    have "2 ^ e \<le> \<bar>v\<bar>" using lo v0 by linarith
    then show ?thesis by (simp only: power_int_of_nat)
  qed
  moreover have "\<bar>v\<bar> < 2 powi (int e + 1)"
  proof -
    have "v < real j + 1" using small v by simp
    also have "\<dots> \<le> 2 ^ (e + 1)" by (rule hi)
    finally have "\<bar>v\<bar> < 2 ^ (e + 1)" using v0 by simp
    moreover have "(2::real) powi (int e + 1) = 2 ^ (e + 1)"
      by (metis of_nat_1 of_nat_add power_int_of_nat)
    ultimately show ?thesis by (simp only:)
  qed
  ultimately have ex: "exponent64 v = int e" by (rule exponent64_eq) simp
  define k where "k = 52 - e"
  have k: "int e - 52 = - int k" "k + (e + 2) = 54" using e31 by (simp_all add: k_def)
  have q: "quantum v = 1 / 2 ^ k"
    by (simp add: quantum_def ex k(1) power_int_minus_divide)
  have p54: "(2::real) ^ 54 = 2 ^ k * 2 ^ (e + 2)" by (simp only: power_add [symmetric] k(2))
  have "v / quantum v = v * 2 ^ k" by (simp add: q)
  also have "\<dots> = real j * 2 ^ k + real j * 2 ^ k / 2 ^ 54" by (simp add: v algebra_simps)
  also have "real j * 2 ^ k / 2 ^ 54 = real j / 2 ^ (e + 2)" unfolding p54 by simp
  also have "real j * 2 ^ k = of_int (int j * 2 ^ k)" by simp
  finally have d: "v / quantum v = of_int (int j * 2 ^ k) + real j / 2 ^ (e + 2)" .
  have f0: "0 \<le> real j / 2 ^ (e + 2)" by simp
  have f1: "real j / 2 ^ (e + 2) < 1 / 2"
  proof -
    have "real j < 2 ^ (e + 1)" using hi by simp
    then have "real j / 2 ^ (e + 2) < 2 ^ (e + 1) / 2 ^ (e + 2)"
      by (simp add: divide_strict_right_mono)
    then show ?thesis by simp
  qed
  have "roundHalfEven (v / quantum v) = int j * 2 ^ k"
    unfolding d using f0 f1 by (rule roundHalfEven_near)
  then have "rnd v = of_int (int j * 2 ^ k) * (1 / 2 ^ k)" by (simp only: rnd_def q)
  then have "rnd v = real j" by simp
  then show ?thesis by (simp only: v_def)
qed

text \<open>The margin that \<open>mergeNearbyBoxes\<close> computes is a safe margin.\<close>

lemma margin_safe:
  fixes k :: nat
  assumes "k \<le> 2 ^ 31"
  shows "\<exists>m. mul64 (Finite (real k)) (round64 (5 / 100)) = Finite m \<and> safeMargin m"
proof -
  define c :: real where "c = 3602879701896397 / 2 ^ 56"
  define v where "v = real k * c"
  have c: "c = (1 / 20) * (1 + 1 / 2 ^ 54)" by (simp add: c_def)
  have kr: "real k \<le> 2 ^ 31" using assms by (metis of_nat_le_iff of_nat_numeral of_nat_power)
  have c1: "0 \<le> c" "c \<le> 1 / 16" by (simp_all add: c_def)
  have v0: "0 \<le> v" using c1 by (simp add: v_def)
  have "v \<le> 2 ^ 31 * (1 / 16)" unfolding v_def using kr c1 by (intro mult_mono) simp_all
  then have v1: "v \<le> 2 ^ 27" by simp
  then have "\<bar>v\<bar> \<le> 2 ^ 40" using v0 power_increasing [of 27 40 "2::real"] by simp
  then have fin: "round64 v = Finite (rnd v)" by (rule round64_Finite)
  have mul: "mul64 (Finite (real k)) (round64 (5 / 100)) = Finite (rnd v)"
    unfolding round64_lit005 mul64.simps c_def [symmetric] v_def [symmetric] by (rule fin)
  have "\<bar>v\<bar> \<le> 2 powi 27" using v0 v1 by simp
  then have "quantum v \<le> 2 powi (27 - 52)" by (rule quantum_le) simp
  then have "quantum v \<le> 1 / 2 ^ 25" by (simp add: power_int_minus_divide)
  with rnd_error [of v] have err: "\<bar>rnd v - v\<bar> \<le> 1 / 2 ^ 26" by simp
  have m0: "0 \<le> rnd v" using v0 by (rule rnd_nonneg)
  have m1: "rnd v \<le> 2 ^ 31"
  proof -
    have "rnd v \<le> v + 1 / 2 ^ 26" using err by linarith
    also have "\<dots> \<le> 2 ^ 27 + 1" using v1 by simp
    also have "\<dots> \<le> (2::real) ^ 31" by simp
    finally show ?thesis .
  qed
  have "rnd v \<in> \<int> \<or> awayFromIntegers (rnd v)"
  proof (cases "20 dvd k")
    case True
    then obtain j where j: "k = 20 * j" by (auto elim: dvdE)
    show ?thesis
    proof (cases "j = 0")
      case True
      with j have "v = 0" by (simp add: v_def)
      then have "rnd v = 0" by (simp add: rnd_def roundHalfEven_def)
      then show ?thesis by simp
    next
      case False
      then have "1 \<le> j" by simp
      moreover from j assms have "j \<le> 2 ^ 31" by simp
      ultimately have r: "rnd (real j * (1 + 1 / 2 ^ 54)) = real j" by (rule rnd_near_nat)
      have veq: "v = real j * (1 + 1 / 2 ^ 54)" by (simp add: v_def c j)
      have "rnd v = real j" unfolding veq by (rule r)
      then show ?thesis by simp
    qed
  next
    case False
    have "1 / 1024 \<le> \<bar>rnd v - of_int n\<bar>" for n :: int
    proof -
      have "int k - 20 * n \<noteq> 0"
      proof
        assume "int k - 20 * n = 0"
        then have "int k = 20 * n" by simp
        then have "20 dvd int k" by simp
        then have "20 dvd k" by presburger
        with False show False by simp
      qed
      then have "1 \<le> \<bar>int k - 20 * n\<bar>" by linarith
      then have "1 \<le> \<bar>real_of_int (int k - 20 * n)\<bar>"
        by (metis of_int_1 of_int_abs of_int_le_iff)
      then have "1 \<le> \<bar>real k - 20 * of_int n\<bar>" by simp
      moreover have "\<bar>real k / 20 - of_int n\<bar> = \<bar>real k - 20 * of_int n\<bar> / 20"
        by (simp add: abs_if field_simps)
      ultimately have far: "1 / 20 \<le> \<bar>real k / 20 - of_int n\<bar>" by simp
      have "v - real k / 20 = real k / (20 * 2 ^ 54)" by (simp add: v_def c algebra_simps)
      moreover have "real k / (20 * 2 ^ 54) \<le> 2 ^ 31 / (20 * 2 ^ 54)"
        using kr by (simp add: divide_right_mono)
      moreover have "(2::real) ^ 31 / (20 * 2 ^ 54) \<le> 1 / 2 ^ 26" by simp
      ultimately have near: "\<bar>v - real k / 20\<bar> \<le> 1 / 2 ^ 26" by simp
      have "(1::real) / 20 - 2 * (1 / 2 ^ 26) \<ge> 1 / 1024" by simp
      with far near err show ?thesis by linarith
    qed
    then show ?thesis by (simp add: awayFromIntegers_def)
  qed
  with m0 m1 have "safeMargin (rnd v)" by (simp add: safeMargin_def)
  with mul show ?thesis by blast
qed

section \<open>Properties of the box geometry\<close>

lemma mergeMargin_safe:
  fixes W H :: nat
  assumes "min W H \<le> 2 ^ 31"
  shows "\<exists>m. mergeMargin (real W) (real H) = Finite m \<and> safeMargin m"
proof -
  have "min (real W) (real H) = real (min W H)" by simp
  then show ?thesis
    unfolding mergeMargin_def using margin_safe [OF assms] by simp
qed

text \<open>
  Claim C3, as the code has it. For all boxes \<open>a\<close> and \<open>b\<close> whose fields are
  integers of magnitude at most \<open>2 ^ 31\<close>, \<open>shouldMerge a b m\<close> and
  \<open>shouldMerge b a m\<close> give the same answer, although only the first argument is
  expanded by the margin, for every margin \<open>0 \<le> m \<le> 2 ^ 31\<close> that is an integer or
  lies at least \<open>1 / 1024\<close> from every integer, and so for every margin
  \<open>0.05 * min (W, H)\<close> that \<open>mergeNearbyBoxes\<close> computes from integer image
  dimensions with \<open>min (W, H) \<le> 2 ^ 31\<close>. On these values both orders agree with the
  four tests in exact arithmetic.
\<close>

theorem shouldMerge_symmetric:
  assumes "integerBox a" "integerBox b"
  shows "(\<forall>m. safeMargin m \<longrightarrow>
            shouldMerge a b (Finite m) = shouldMerge b a (Finite m) \<and>
            shouldMerge a b (Finite m) = shouldMergeExact a b m) \<and>
         (\<forall>W H :: nat. min W H \<le> 2 ^ 31 \<longrightarrow>
            shouldMerge a b (mergeMargin (real W) (real H)) =
            shouldMerge b a (mergeMargin (real W) (real H)))"
proof -
  have safe: "shouldMerge a b (Finite m) = shouldMerge b a (Finite m) \<and>
              shouldMerge a b (Finite m) = shouldMergeExact a b m" if "safeMargin m" for m
    using shouldMerge_exact [OF assms that] shouldMerge_exact [OF assms(2,1) that]
      shouldMergeExact_sym [of a b m]
    by simp
  have "shouldMerge a b (mergeMargin (real W) (real H)) =
        shouldMerge b a (mergeMargin (real W) (real H))" if "min W H \<le> 2 ^ 31" for W H :: nat
  proof -
    from mergeMargin_safe [OF that]
    obtain m where "mergeMargin (real W) (real H) = Finite m" "safeMargin m" by blast
    with safe show ?thesis by simp
  qed
  with safe show ?thesis by blast
qed

theorem shouldMerge_symmetric_witness:
  "integerBox boxC \<and> integerBox boxD \<and> safeMargin 2 \<and>
   shouldMerge boxC boxD (Finite 2) = shouldMerge boxD boxC (Finite 2) \<and>
   shouldMerge boxC boxD (Finite 2) \<and>
   min (4::nat) 4 \<le> 2 ^ 31 \<and>
   shouldMerge boxC boxD (mergeMargin (real (4::nat)) (real (4::nat))) =
   shouldMerge boxD boxC (mergeMargin (real (4::nat)) (real (4::nat)))"
proof -
  have c: "integerBox boxC" and d: "integerBox boxD"
    by (simp_all add: integerBox_def smallInteger_def boxC_def boxD_def)
  have m: "safeMargin 2" by (simp add: safeMargin_def)
  have k: "min (4::nat) 4 \<le> 2 ^ 31" by simp
  have e: "shouldMergeExact boxC boxD 2" by (simp add: shouldMergeExact_def boxC_def boxD_def)
  from shouldMerge_symmetric [OF c d] m k e c d show ?thesis by blast
qed

text \<open>
  The claim as the specification words it, for all boxes and every margin, fails where
  a sum is rounded: with a margin of \<open>2 ^ 53\<close> and two unit boxes \<open>2 ^ 53\<close> apart,
  \<open>1 + 2 ^ 54\<close> is rounded to \<open>2 ^ 54\<close> and \<open>2 ^ 53 + 1\<close> to \<open>2 ^ 53\<close>; the
  expanded first box then ends exactly at the second one's left edge, while the
  expanded second box reaches far beyond the first.
\<close>

theorem shouldMerge_rounding_counterexample:
  "(0::real) \<le> 2 ^ 53 \<and>
   \<not> shouldMerge boxA boxB (Finite (2 ^ 53)) \<and> shouldMerge boxB boxA (Finite (2 ^ 53))"
proof -
  have "\<not> shouldMerge boxA boxB (Finite (2 ^ 53))"
    using r_1 r_m53 r_53 r_54 r_54_1 r_53_1
    by (simp add: shouldMerge_def boxA_def boxB_def sub64_def round64_zero)
  moreover have "shouldMerge boxB boxA (Finite (2 ^ 53))"
    using r_1 r_m53 r_53 r_54 r_54_1 r_53_1
    by (simp add: shouldMerge_def boxA_def boxB_def sub64_def round64_zero)
  ultimately show ?thesis by simp
qed

text \<open>
  A second pair on which the two orders differ, with a margin of one half:
  \<open>0.2 + 1\<close> is rounded down, so the expanded \<open>boxF\<close> ends exactly at the left
  edge of \<open>boxE\<close>, which it would pass in exact arithmetic.
\<close>

lemma lit07: "round64 (7 / 10) = Finite (3152519739159347 / 2 ^ 52)"
  using round64_eval [of "- 1" "7 / 10"] by (simp add: roundHalfEven_def)

lemma lit02: "round64 (2 / 10) = Finite (3602879701896397 / 2 ^ 54)"
  using round64_eval [of "- 3" "2 / 10"] by (simp add: roundHalfEven_def)

lemma r_x07_minus_half:
  "round64 (3152519739159347 / 2 ^ 52 - 1 / 2) = Finite (900719925474099 / 2 ^ 52)"
  using round64_eval [of "- 3" "3152519739159347 / 2 ^ 52 - 1 / 2"] by (simp add: roundHalfEven_def)

lemma r_w02: "round64 (3602879701896397 / 2 ^ 54) = Finite (3602879701896397 / 2 ^ 54)"
  using round64_eval [of "- 3" "3602879701896397 / 2 ^ 54"] by (simp add: roundHalfEven_def)

lemma r_3: "round64 3 = Finite 3"
  using round64_eval [of 1 3] by (simp add: roundHalfEven_def)

lemma r_2: "round64 2 = Finite 2"
  using round64_eval [of 1 2] by (simp add: roundHalfEven_def)

lemma r_right_EF:
  "round64 (900719925474099 / 2 ^ 52 + 3) = Finite (3602879701896397 / 2 ^ 50)"
  using round64_eval [of 1 "900719925474099 / 2 ^ 52 + 3"] by (simp add: roundHalfEven_def)

lemma r_minus_half: "round64 (- (1 / 2)) = Finite (- (1 / 2))"
  using round64_eval [of "- 1" "- (1 / 2)"] by (simp add: roundHalfEven_def)

lemma r_3_2: "round64 (3 / 2) = Finite (3 / 2)"
  using round64_eval [of 0 "3 / 2"] by (simp add: roundHalfEven_def)

lemma r_w02_plus_1:
  "round64 (3602879701896397 / 2 ^ 54 + 1) = Finite (5404319552844595 / 2 ^ 52)"
  using round64_eval [of 0 "3602879701896397 / 2 ^ 54 + 1"] by (simp add: roundHalfEven_def)

lemma r_right_FE:
  "round64 (- (1 / 2) + 5404319552844595 / 2 ^ 52) = Finite (3152519739159347 / 2 ^ 52)"
  using round64_eval [of "- 1" "- (1 / 2) + 5404319552844595 / 2 ^ 52"] by (simp add: roundHalfEven_def)

lemma r_x07_plus_2:
  "round64 (3152519739159347 / 2 ^ 52 + 2) = Finite (3039929748475085 / 2 ^ 50)"
  using round64_eval [of 1 "3152519739159347 / 2 ^ 52 + 2"] by (simp add: roundHalfEven_def)

lemma shouldMerge_rounding_example:
  "shouldMerge boxE boxF (Finite (1 / 2)) \<and> \<not> shouldMerge boxF boxE (Finite (1 / 2))"
proof -
  have "shouldMerge boxE boxF (Finite (1 / 2))"
    using r_x07_minus_half r_w02 r_3 r_2 r_right_EF r_minus_half r_3_2 r_1
    by (simp add: shouldMerge_def boxE_def boxF_def sub64_def round64_zero)
  moreover have "\<not> shouldMerge boxF boxE (Finite (1 / 2))"
    using r_2 r_minus_half r_3_2 r_w02_plus_1 r_right_FE r_x07_plus_2 r_1
    by (simp add: shouldMerge_def boxE_def boxF_def sub64_def round64_zero)
  ultimately show ?thesis by simp
qed

lemma mergeLoop_stable: "firstMergeable (mergeLoop boxes margin) margin = None"
proof (induction boxes margin rule: mergeLoop.induct)
  case (1 boxes margin)
  show ?case
  proof (cases "firstMergeable boxes margin")
    case None
    then show ?thesis by (simp add: mergeLoop.simps)
  next
    case (Some p)
    obtain i j where p: "p = (i, j)" by (cases p)
    from 1 [OF Some p [symmetric]] show ?thesis
      by (subst mergeLoop.simps) (simp add: Some p)
  qed
qed

lemma mergeLoop_fixed: "firstMergeable boxes margin = None \<Longrightarrow> mergeLoop boxes margin = boxes"
  by (simp add: mergeLoop.simps)

text \<open>
  Claim C4. \<open>mergeNearbyBoxes\<close> is idempotent: for every list of boxes and all image
  dimensions, running it again on its own output, with the same dimensions, returns
  that output unchanged.
\<close>

theorem mergeNearbyBoxes_idempotent:
  "mergeNearbyBoxes (mergeNearbyBoxes boxes W H) W H = mergeNearbyBoxes boxes W H"
  unfolding mergeNearbyBoxes_def Let_def
  by (simp add: mergeLoop_stable mergeLoop_fixed)

section \<open>Properties of the grayscale reduction\<close>

lemma toUint8Clamp_le: "toUint8Clamp v \<le> 255"
proof -
  have "v < 255 \<Longrightarrow> \<lfloor>v\<rfloor> \<le> 254" by linarith
  then show ?thesis
    by (auto simp: toUint8Clamp_def Let_def nat_le_iff)
qed

lemma toUint8Clamp_round:
  assumes "0 \<le> v" "v \<le> 255" "frac v \<noteq> 1 / 2"
  shows "toUint8Clamp v = nat (round v)"
proof -
  consider "v = 0" | "v = 255" | "0 < v" "v < 255" using assms by linarith
  then show ?thesis
  proof cases
    case 1
    then show ?thesis by (simp add: toUint8Clamp_def)
  next
    case 2
    then show ?thesis by (simp add: toUint8Clamp_def)
  next
    case 3
    have fr: "v - of_int \<lfloor>v\<rfloor> = frac v" by (simp add: frac_def)
    show ?thesis
    proof (cases "frac v < 1 / 2")
      case True
      then have "round v = \<lfloor>v\<rfloor>"
        unfolding round_def frac_def by (intro floor_unique) linarith+
      with True 3 fr show ?thesis by (simp add: toUint8Clamp_def Let_def)
    next
      case False
      with assms(3) have gt: "1 / 2 < frac v" by simp
      have "frac v < 1" by (rule frac_lt_1)
      with gt have "round v = \<lfloor>v\<rfloor> + 1"
        unfolding round_def frac_def by (intro floor_unique) (simp, linarith+)
      with gt 3 fr show ?thesis by (simp add: toUint8Clamp_def Let_def)
    qed
  qed
qed

lemma frac_third: "frac (real n / 3) \<noteq> 1 / 2"
proof
  assume a: "frac (real n / 3) = 1 / 2"
  define f where "f = \<lfloor>real n / 3\<rfloor>"
  from a have "real n / 3 - of_int f = 1 / 2" by (simp add: frac_def f_def)
  then have "2 * real n = of_int (6 * f + 3)" by (simp add: field_simps)
  then have "real_of_int (2 * int n) = of_int (6 * f + 3)" by simp
  then have "2 * int n = 6 * f + 3" by (simp only: of_int_eq_iff)
  then show False by presburger
qed

lemma foldl_grayStep_length: "length (foldl (grayStep d) g ks) = length g"
  by (induction ks arbitrary: g) (simp_all add: grayStep_def)

lemma foldl_grayStep_nth:
  "p < length g \<Longrightarrow>
   foldl (grayStep d) g ks ! p = (if p \<in> set ks then storeU8 (grayAvg d (4 * p)) else g ! p)"
proof (induction ks arbitrary: g)
  case Nil
  then show ?case by simp
next
  case (Cons k ks)
  have len: "p < length (grayStep d g k)" using Cons.prems by (simp add: grayStep_def)
  show ?case
    using Cons.IH [OF len] Cons.prems
    by (auto simp: grayStep_def nth_list_update)
qed

lemma toGrayscale_length:
  "length (data (toGrayscale img)) = width img * height img"
  by (simp add: toGrayscale_def foldl_grayStep_length)

lemma toGrayscale_nth:
  assumes wf: "wellFormedRGBA img" and p: "p < width img * height img"
  shows "data (toGrayscale img) ! p =
         nat (round ((real (data img ! (4 * p)) + real (data img ! (4 * p + 1))
                      + real (data img ! (4 * p + 2))) / 3))"
proof -
  let ?d = "data img"
  define s where "s = ?d ! (4 * p) + ?d ! (4 * p + 1) + ?d ! (4 * p + 2)"
  from wf have len: "length ?d = 4 * (width img * height img)"
    and bytes: "\<forall>v \<in> set ?d. v \<le> 255"
    by (simp_all add: wellFormedRGBA_def list_all_iff)
  from len p have in_range: "4 * p < length ?d" "4 * p + 1 < length ?d" "4 * p + 2 < length ?d"
    by simp_all
  then have "?d ! (4 * p) \<le> 255" "?d ! (4 * p + 1) \<le> 255" "?d ! (4 * p + 2) \<le> 255"
    using bytes nth_mem by blast+
  then have "s \<le> 765" by (simp add: s_def)
  then have bound: "real s / 3 \<le> 255" by simp
  have nonneg: "0 \<le> real s / 3" by simp
  have avg: "grayAvg ?d (4 * p) = Some (real s / 3)"
    using in_range by (simp add: grayAvg_def aget_def s_def)
  have mem: "p \<in> set [0 ..< (length ?d + 3) div 4]" using len p by simp
  have "data (toGrayscale img) ! p = storeU8 (grayAvg ?d (4 * p))"
    using p mem by (simp add: toGrayscale_def foldl_grayStep_nth del: set_upt)
  also have "\<dots> = toUint8Clamp (real s / 3)" by (simp add: avg storeU8_def)
  also have "\<dots> = nat (round (real s / 3))"
    using nonneg bound frac_third by (rule toUint8Clamp_round)
  finally show ?thesis by (simp add: s_def)
qed

text \<open>
  Claim C7, as the code has it. For every well-formed RGBA input (four bytes per pixel),
  \<open>toGrayscale\<close> gives a buffer of the same width and height, one value per pixel,
  and each value is the unweighted mean of the pixel's R, G and B channels rounded to
  the nearest integer, which lies in \<open>[0, 255]\<close>; the alpha channel plays no part.
\<close>

theorem toGrayscale_rounded_mean:
  assumes "wellFormedRGBA img"
  shows "width (toGrayscale img) = width img \<and>
         height (toGrayscale img) = height img \<and>
         length (data (toGrayscale img)) = width img * height img \<and>
         (\<forall>p < width img * height img.
            data (toGrayscale img) ! p =
              nat (round ((real (data img ! (4 * p)) + real (data img ! (4 * p + 1))
                           + real (data img ! (4 * p + 2))) / 3)) \<and>
            data (toGrayscale img) ! p \<le> 255)"
proof -
  have dims: "width (toGrayscale img) = width img \<and> height (toGrayscale img) = height img"
    by (simp add: toGrayscale_def)
  have le: "data (toGrayscale img) ! p \<le> 255" if "p < width img * height img" for p
  proof -
    let ?d = "data img"
    from assms that have "p \<in> set [0 ..< (length ?d + 3) div 4]"
      by (simp add: wellFormedRGBA_def)
    with that have "data (toGrayscale img) ! p = storeU8 (grayAvg ?d (4 * p))"
      by (simp add: toGrayscale_def foldl_grayStep_nth del: set_upt)
    then show ?thesis
      by (simp add: storeU8_def toUint8Clamp_le split: option.splits)
  qed
  from dims le show ?thesis
    using toGrayscale_length [of img] toGrayscale_nth [OF assms] by blast
qed

theorem toGrayscale_rounded_mean_witness:
  "wellFormedRGBA \<lparr>data = [0, 0, 2, 255], width = 1, height = 1\<rparr> \<and>
   width (toGrayscale \<lparr>data = [0, 0, 2, 255], width = 1, height = 1\<rparr>) = 1 \<and>
   height (toGrayscale \<lparr>data = [0, 0, 2, 255], width = 1, height = 1\<rparr>) = 1 \<and>
   data (toGrayscale \<lparr>data = [0, 0, 2, 255], width = 1, height = 1\<rparr>) ! 0 = 1"
proof -
  have wf: "wellFormedRGBA \<lparr>data = [0, 0, 2, 255], width = 1, height = 1\<rparr>"
    by (simp add: wellFormedRGBA_def)
  have r: "round ((2::real) / 3) = 1"
    by (simp add: round_def)
  from toGrayscale_rounded_mean [OF wf] wf r show ?thesis by simp
qed

text \<open>
  The claim as the specification words it, with the mean truncated, fails on a pixel
  whose channels sum to 2: the mean is two thirds, truncation gives 0, the code
  stores 1.
\<close>

theorem toGrayscale_truncation_counterexample:
  "wellFormedRGBA \<lparr>data = [0, 0, 2, 255], width = 1, height = 1\<rparr> \<and>
   data (toGrayscale \<lparr>data = [0, 0, 2, 255], width = 1, height = 1\<rparr>) ! 0 = 1 \<and>
   nat \<lfloor>(real 0 + real 0 + real 2) / 3\<rfloor> = 0"
  by (simp add: wellFormedRGBA_def toGrayscale_def grayStep_def grayAvg_def storeU8_def
      aget_def toUint8Clamp_def upt_conv_Cons)

section \<open>Properties of the enhancement engine\<close>

lemma toUint8Clamp_nearest:
  assumes "0 \<le> v" "v \<le> 255"
  shows "\<bar>real (toUint8Clamp v) - v\<bar> \<le> 1 / 2 \<and>
         (\<bar>real (toUint8Clamp v) - v\<bar> = 1 / 2 \<longrightarrow> even (toUint8Clamp v))"
proof -
  consider "v = 0" | "v = 255" | "0 < v" "v < 255" using assms by linarith
  then show ?thesis
  proof cases
    case 1 then show ?thesis by (simp add: toUint8Clamp_def)
  next
    case 2 then show ?thesis by (simp add: toUint8Clamp_def)
  next
    case 3
    define f where "f = \<lfloor>v\<rfloor>"
    have f0: "0 \<le> f" using 3 by (simp add: f_def)
    have fl: "of_int f \<le> v" "v < of_int f + 1" unfolding f_def by linarith+
    have rn: "real (nat f) = of_int f" "real (nat (f + 1)) = of_int f + 1" using f0 by simp_all
    have ev: "even (nat f) = even f" "even (nat (f + 1)) = odd f" using f0
      by (simp_all add: even_nat_iff)
    show ?thesis
      using 3 fl rn ev unfolding toUint8Clamp_def Let_def f_def [symmetric]
      by (auto simp: abs_if)
  qed
qed

lemma contrastPixel_length: "length (contrastPixel d k) = length d"
  by (simp add: contrastPixel_def Let_def)

lemma contrastPixel_nth:
  "j < length d \<Longrightarrow>
   contrastPixel d k ! j = (if j div 4 = k \<and> j mod 4 \<noteq> 3 then contrastValue (d ! j) else d ! j)"
  unfolding contrastPixel_def Let_def contrastValue_def
  by (auto simp: nth_list_update aget_def storeU8_def adjust_def) presburger+

lemma foldl_contrastPixel_length: "length (foldl contrastPixel d ks) = length d"
  by (induction ks arbitrary: d) (simp_all add: contrastPixel_length)

lemma foldl_contrastPixel_nth:
  "distinct ks \<Longrightarrow> j < length d \<Longrightarrow>
   foldl contrastPixel d ks ! j =
     (if j div 4 \<in> set ks \<and> j mod 4 \<noteq> 3 then contrastValue (d ! j) else d ! j)"
proof (induction ks arbitrary: d)
  case Nil
  then show ?case by simp
next
  case (Cons k ks)
  have len: "j < length (contrastPixel d k)" using Cons.prems by (simp add: contrastPixel_length)
  from Cons.prems have dk: "distinct ks" "k \<notin> set ks" by simp_all
  show ?case
    using Cons.IH [OF dk(1) len] dk(2) Cons.prems(2)
    by (auto simp: contrastPixel_nth)
qed

lemma contrastBrightness_nth:
  assumes "j < length d"
  shows "contrastBrightness d ! j = (if j mod 4 = 3 then d ! j else contrastValue (d ! j))"
proof -
  have "j div 4 < (length d + 3) div 4" using assms by linarith
  then show ?thesis
    unfolding contrastBrightness_def using assms
    by (simp add: foldl_contrastPixel_nth)
qed

text \<open>
  Claim C8. Whenever \<open>enhanceImage\<close> returns, its output is \<open>2 * width\<close> by
  \<open>2 * height\<close> if the input's width or height is below 512, and has the input's
  dimensions if both are at least 512; and it does return when both canvases give a
  context.
\<close>

theorem enhanceImage_dimensions:
  "(ctx \<and> upscaledCtx \<longrightarrow> (\<exists>out. enhanceImage ctx upscaledCtx drawScaled img = Inr out)) \<and>
   (\<forall>out. enhanceImage ctx upscaledCtx drawScaled img = Inr out \<longrightarrow>
      (width img < 512 \<or> height img < 512 \<longrightarrow>
         width out = 2 * width img \<and> height out = 2 * height img) \<and>
      (512 \<le> width img \<and> 512 \<le> height img \<longrightarrow>
         width out = width img \<and> height out = height img))"
  unfolding enhanceImage_def Let_def enhanceStages_def
  by (auto split: if_splits)

theorem enhanceImage_dimensions_witness:
  "(\<exists>out. enhanceImage True True (\<lambda>img w h. replicate (4 * w * h) 7)
            \<lparr>data = [1, 2, 3, 255], width = 1, height = 1\<rparr> = Inr out \<and>
          width out = 2 \<and> height out = 2) \<and>
   (\<exists>out. enhanceImage True False (\<lambda>img w h. replicate (4 * w * h) 7)
            (blankImage 512 600) = Inr out \<and>
          width out = 512 \<and> height out = 600)"
proof -
  let ?r = "\<lambda>(img::Buffer) w h. replicate (4 * w * h) (7::nat)"
  let ?small = "\<lparr>data = [1, 2, 3, 255], width = 1, height = 1\<rparr>"
  let ?big = "blankImage 512 600"
  have dims: "width ?big = 512" "height ?big = 600"
    by (simp_all add: blankImage_def)
  obtain a where a: "enhanceImage True True ?r ?small = Inr a"
    using enhanceImage_dimensions [of True True ?r ?small] by auto
  have b: "enhanceImage True False ?r ?big = Inr (enhanceStages (data ?big) 512 600)"
    unfolding enhanceImage_def Let_def dims by simp
  from a enhanceImage_dimensions [of True True ?r ?small]
  have "width a = 2 \<and> height a = 2" by simp
  moreover from b enhanceImage_dimensions [of True False ?r ?big]
  have "width (enhanceStages (data ?big) 512 600) = 512 \<and>
        height (enhanceStages (data ?big) 512 600) = 600"
    unfolding dims by simp
  ultimately show ?thesis using a b by blast
qed

text \<open>
  Claim C9, as the code has it. The contrast and brightness stage keeps the length of
  the array, leaves every alpha byte as it was, and replaces every R, G and B byte
  \<open>v\<close> by \<open>clamp (1.05 * v + 10, 0, 255)\<close> rounded to the nearest integer, a tie
  going to the even neighbour; the value stored is never above 255.
\<close>

theorem contrastBrightness_rounded:
  "length (contrastBrightness d) = length d \<and>
   (\<forall>j < length d.
      (j mod 4 = 3 \<longrightarrow> contrastBrightness d ! j = d ! j) \<and>
      (j mod 4 \<noteq> 3 \<longrightarrow>
         contrastBrightness d ! j =
           toUint8Clamp (max 0 (min 255 ((105 / 100) * real (d ! j) + 10))) \<and>
         \<bar>real (contrastBrightness d ! j) - max 0 (min 255 ((105 / 100) * real (d ! j) + 10))\<bar>
           \<le> 1 / 2 \<and>
         (\<bar>real (contrastBrightness d ! j) - max 0 (min 255 ((105 / 100) * real (d ! j) + 10))\<bar>
            = 1 / 2 \<longrightarrow> even (contrastBrightness d ! j)) \<and>
         contrastBrightness d ! j \<le> 255))"
proof -
  have len: "length (contrastBrightness d) = length d"
    by (simp add: contrastBrightness_def foldl_contrastPixel_length)
  have rgb: "contrastBrightness d ! j =
               toUint8Clamp (max 0 (min 255 ((105 / 100) * real (d ! j) + 10))) \<and>
             \<bar>real (contrastBrightness d ! j) - max 0 (min 255 ((105 / 100) * real (d ! j) + 10))\<bar>
               \<le> 1 / 2 \<and>
             (\<bar>real (contrastBrightness d ! j) - max 0 (min 255 ((105 / 100) * real (d ! j) + 10))\<bar>
                = 1 / 2 \<longrightarrow> even (contrastBrightness d ! j)) \<and>
             contrastBrightness d ! j \<le> 255"
    if "j < length d" "j mod 4 \<noteq> 3" for j
  proof -
    let ?c = "max 0 (min 255 ((105 / 100) * real (d ! j) + 10))"
    have eq: "contrastBrightness d ! j = toUint8Clamp ?c"
      using that by (simp add: contrastBrightness_nth contrastValue_def)
    have "0 \<le> ?c" "?c \<le> 255" by simp_all
    from toUint8Clamp_nearest [OF this] eq toUint8Clamp_le [of ?c] show ?thesis
      by simp
  qed
  have alpha: "contrastBrightness d ! j = d ! j" if "j < length d" "j mod 4 = 3" for j
    using that by (simp add: contrastBrightness_nth)
  from len rgb alpha show ?thesis by blast
qed

theorem contrastBrightness_rounded_witness:
  "contrastBrightness [1, 10, 250, 77] = [11, 20, 255, 77]"
proof -
  let ?d = "[1, 10, 250, 77] :: nat list"
  note th = contrastBrightness_rounded [of ?d]
  from th have len: "length (contrastBrightness ?d) = 4" by simp
  from th have rgb: "\<And>j. j < length ?d \<Longrightarrow> j mod 4 \<noteq> 3 \<Longrightarrow>
      contrastBrightness ?d ! j = toUint8Clamp (max 0 (min 255 ((105 / 100) * real (?d ! j) + 10)))"
    by blast
  from th have alpha: "\<And>j. j < length ?d \<Longrightarrow> j mod 4 = 3 \<Longrightarrow> contrastBrightness ?d ! j = ?d ! j"
    by blast
  have n0: "contrastBrightness ?d ! 0 = 11" using rgb [of 0] by (simp add: toUint8Clamp_def)
  have n1: "contrastBrightness ?d ! 1 = 20" using rgb [of 1] by (simp add: toUint8Clamp_def)
  have n2: "contrastBrightness ?d ! 2 = 255" using rgb [of 2] by (simp add: toUint8Clamp_def)
  have n3: "contrastBrightness ?d ! 3 = 77" using alpha [of 3] by simp
  obtain a b c e where "contrastBrightness ?d = [a, b, c, e]"
    using len by (auto simp: length_Suc_conv numeral_eq_Suc)
  with n0 n1 n2 n3 show ?thesis by simp
qed

text \<open>
  The claim as the specification words it, with no rounding, fails on a channel holding
  1: \<open>1.05 * 1 + 10 = 11.05\<close>, and the byte stored is 11.
\<close>

theorem contrastBrightness_exact_counterexample:
  "real (contrastBrightness [1, 1, 1, 255] ! 0)
     \<noteq> max 0 (min 255 ((105 / 100) * real ([1, 1, 1, 255] ! 0) + 10))"
  by (simp add: contrastBrightness_def contrastPixel_def adjust_def storeU8_def aget_def
      toUint8Clamp_def upt_conv_Cons)

section \<open>Properties of the contour extraction\<close>

lemma inRange_nat:
  assumes "inRange w h p"
  obtains x y where "p = \<lparr>pt_x = int x, pt_y = int y\<rparr>" "x < w" "y < h"
proof -
  from assms have "0 \<le> pt_x p" "0 \<le> pt_y p" by (simp_all add: inRange_def)
  then obtain x y where xy: "pt_x p = int x" "pt_y p = int y"
    by (metis nat_0_le)
  with assms have "x < w" "y < h" by (simp_all add: inRange_def)
  moreover from xy have "p = \<lparr>pt_x = int x, pt_y = int y\<rparr>" by simp
  ultimately show thesis using that by blast
qed

lemma pixelIndex_nat [simp]: "pixelIndex w \<lparr>pt_x = int x, pt_y = int y\<rparr> = y * w + x"
  by (simp add: pixelIndex_def nat_add_distrib nat_mult_distrib)

lemma row_major_less: "x < w \<Longrightarrow> y < h \<Longrightarrow> y * w + x < w * (h::nat)"
proof -
  assume "x < w" "y < h"
  then have "y * w + x < Suc y * w" by simp
  also have "Suc y * w \<le> h * w" using \<open>y < h\<close> by (intro mult_le_mono1) simp
  finally show ?thesis by (simp add: mult.commute)
qed

lemma row_major_inj:
  assumes "x < w" "x' < w" "y * w + x = y' * w + (x'::nat)"
  shows "x = x' \<and> y = y'"
proof -
  from assms(3) have "(y * w + x) mod w = (y' * w + x') mod w"
    and "(y * w + x) div w = (y' * w + x') div w" by simp_all
  with assms(1,2) show ?thesis by simp
qed

lemma pixelIndex_less: "inRange w h p \<Longrightarrow> pixelIndex w p < w * h"
  by (erule inRange_nat) (simp add: row_major_less)

lemma pixelIndex_inj:
  "inRange w h p \<Longrightarrow> inRange w h q \<Longrightarrow> pixelIndex w p = pixelIndex w q \<Longrightarrow> p = q"
  by (elim inRange_nat) (auto dest: row_major_inj)

lemma marked_update:
  assumes q: "inRange w h q" and len: "length visited = w * h"
  shows "marked (visited[pixelIndex w q := 1]) w h p \<longleftrightarrow> marked visited w h p \<or> p = q"
proof (cases "inRange w h p")
  case False
  with q show ?thesis by (auto simp: marked_def)
next
  case True
  show ?thesis
  proof (cases "p = q")
    case True
    with q len pixelIndex_less [OF q] show ?thesis
      by (simp add: marked_def aget_def falsy_def)
  next
    case False
    with True q have "pixelIndex w p \<noteq> pixelIndex w q" using pixelIndex_inj by blast
    with False show ?thesis
      by (simp add: marked_def aget_def)
  qed
qed

lemma visitNeighbour_inv:
  assumes inv: "fillInv d w h V0 visited (done @ queue)"
  shows "\<exists>ext. visitNeighbour d w h point (visited, queue) dd = 
           (fst (visitNeighbour d w h point (visited, queue) dd), queue @ ext) \<and>
         fillInv d w h V0 (fst (visitNeighbour d w h point (visited, queue) dd)) (done @ queue @ ext)"
proof -
  let ?q = "\<lparr>pt_x = pt_x point + snd dd, pt_y = pt_y point + fst dd\<rparr>"
  let ?c = "\<not> (snd dd = 0 \<and> fst dd = 0) \<and> inRange w h ?q \<and>
            ageti d (pt_y ?q * int w + pt_x ?q) = Some 255 \<and>
            falsy (ageti visited (pt_y ?q * int w + pt_x ?q))"
  show ?thesis
  proof (cases ?c)
    case False
    then have "visitNeighbour d w h point (visited, queue) dd = (visited, queue)"
      by (auto simp: visitNeighbour_def Let_def inRange_def)
    with inv show ?thesis by (intro exI [of _ "[]"]) simp
  next
    case True
    then have rq: "inRange w h ?q" by simp
    have nonneg: "0 \<le> pt_y ?q * int w + pt_x ?q" using rq by (simp add: inRange_def)
    then have ag: "ageti xs (pt_y ?q * int w + pt_x ?q) = aget xs (pixelIndex w ?q)" for xs
      by (simp add: ageti_def pixelIndex_def)
    from True have step: "visitNeighbour d w h point (visited, queue) dd =
        (visited[pixelIndex w ?q := 1], queue @ [?q])"
      by (auto simp: visitNeighbour_def Let_def inRange_def pixelIndex_def)
    from True ag have edge: "edgeAt d w h ?q" by (simp add: edgeAt_def)
    from True ag rq have unmarked: "\<not> marked visited w h ?q" by (simp add: marked_def)
    from inv have len: "length visited = w * h" by (simp add: fillInv_def)
    from inv unmarked have new: "?q \<notin> V0" "?q \<notin> set (done @ queue)"
      by (auto simp: fillInv_def)
    have "fillInv d w h V0 (visited[pixelIndex w ?q := 1]) (done @ queue @ [?q])"
      using inv new edge marked_update [OF rq len]
      unfolding fillInv_def by auto
    with step show ?thesis by (intro exI [of _ "[?q]"]) simp
  qed
qed

lemma foldl_visitNeighbour_inv:
  assumes "fillInv d w h V0 visited (done @ queue)"
  shows "\<exists>ext. snd (foldl (visitNeighbour d w h point) (visited, queue) taps) = queue @ ext \<and>
           fillInv d w h V0 (fst (foldl (visitNeighbour d w h point) (visited, queue) taps))
             (done @ queue @ ext)"
  using assms
proof (induction taps arbitrary: visited queue)
  case Nil
  then show ?case by (intro exI [of _ "[]"]) simp
next
  case (Cons t taps)
  from visitNeighbour_inv [OF Cons.prems, of point t]
  obtain ext1 where
    step: "visitNeighbour d w h point (visited, queue) t =
             (fst (visitNeighbour d w h point (visited, queue) t), queue @ ext1)"
    and inv1: "fillInv d w h V0 (fst (visitNeighbour d w h point (visited, queue) t))
                 (done @ queue @ ext1)"
    by blast
  let ?v1 = "fst (visitNeighbour d w h point (visited, queue) t)"
  from inv1 have "fillInv d w h V0 ?v1 (done @ (queue @ ext1))" by simp
  from Cons.IH [OF this]
  obtain ext2 where
    rest: "snd (foldl (visitNeighbour d w h point) (?v1, queue @ ext1) taps) = (queue @ ext1) @ ext2"
    and inv2: "fillInv d w h V0 (fst (foldl (visitNeighbour d w h point) (?v1, queue @ ext1) taps))
                 (done @ (queue @ ext1) @ ext2)"
    by blast
  have unfold: "foldl (visitNeighbour d w h point) (visited, queue) (t # taps) =
                foldl (visitNeighbour d w h point) (?v1, queue @ ext1) taps"
    using step by simp
  show ?case
    unfolding unfold using rest inv2 by (intro exI [of _ "ext1 @ ext2"]) simp
qed

lemma finite_inRange: "finite {p. inRange w h p}"
proof -
  have "{p. inRange w h p} \<subseteq> (\<lambda>(x, y). \<lparr>pt_x = int x, pt_y = int y\<rparr>) ` ({..<w} \<times> {..<h})"
  proof
    fix p assume "p \<in> {p. inRange w h p}"
    then have "inRange w h p" by simp
    then obtain x y where "p = \<lparr>pt_x = int x, pt_y = int y\<rparr>" "x < w" "y < h"
      by (rule inRange_nat)
    then show "p \<in> (\<lambda>(x, y). \<lparr>pt_x = int x, pt_y = int y\<rparr>) ` ({..<w} \<times> {..<h})"
      by (intro image_eqI [of _ _ "(x, y)"]) simp_all
  qed
  then show ?thesis by (rule finite_subset) simp
qed

lemma finite_edges: "finite {p. edgeAt d w h p}"
  by (rule finite_subset [OF _ finite_inRange [of w h]]) (auto simp: edgeAt_def)

lemma fillInv_length: "fillInv d w h V0 visited found \<Longrightarrow> length found \<le> card {p. edgeAt d w h p}"
proof -
  assume inv: "fillInv d w h V0 visited found"
  then have dist: "distinct found" and sub: "set found \<subseteq> {p. edgeAt d w h p}"
    by (auto simp: fillInv_def)
  from dist have "length found = card (set found)" by (simp add: distinct_card)
  also from sub have "\<dots> \<le> card {p. edgeAt d w h p}"
    by (rule card_mono [OF finite_edges])
  finally show ?thesis .
qed

lemma floodFill_inv:
  assumes "fillInv d w h V0 visited (contour @ queue)"
  shows "\<exists>visited' ext. floodFill d w h visited queue contour = Some (visited', contour @ queue @ ext) \<and>
           fillInv d w h V0 visited' (contour @ queue @ ext)"
  using assms
proof (induction "card {p. edgeAt d w h p} - length contour" arbitrary: visited queue contour
    rule: less_induct)
  case less
  show ?case
  proof (cases queue)
    case Nil
    with less.prems show ?thesis
      by (subst floodFill.simps) simp
  next
    case (Cons point rest)
    let ?st = "foldl (visitNeighbour d w h point) (visited, rest) kernelTaps"
    from less.prems Cons have inv: "fillInv d w h V0 visited ((contour @ [point]) @ rest)" by simp
    from foldl_visitNeighbour_inv [OF inv, of point kernelTaps]
    obtain ext where q: "snd ?st = rest @ ext"
      and inv': "fillInv d w h V0 (fst ?st) ((contour @ [point]) @ rest @ ext)"
      by blast
    from fillInv_length [OF less.prems] Cons
    have "length contour < card {p. edgeAt d w h p}" by simp
    then have dec: "card {p. edgeAt d w h p} - length (contour @ [point])
                    < card {p. edgeAt d w h p} - length contour" by simp
    from inv' q have inv'': "fillInv d w h V0 (fst ?st) ((contour @ [point]) @ snd ?st)" by simp
    from less.hyps [OF dec inv'']
    obtain visited' ext' where
      r: "floodFill d w h (fst ?st) (snd ?st) (contour @ [point]) =
            Some (visited', (contour @ [point]) @ snd ?st @ ext')"
      and rinv: "fillInv d w h V0 visited' ((contour @ [point]) @ snd ?st @ ext')"
      by blast
    have "floodFill d w h visited queue contour =
            floodFill d w h (fst ?st) (snd ?st) (contour @ [point])"
      by (subst floodFill.simps) (simp add: Cons Let_def)
    with r rinv q show ?thesis
      by (intro exI [of _ visited'] exI [of _ "ext @ ext'"]) (simp add: Cons)
  qed
qed

lemma scanPixels_inv:
  assumes "scanInv d w h visited contours"
    and "\<forall>yx \<in> set pixels. snd yx < w \<and> fst yx < h"
  shows "\<exists>cs visited'. scanPixels d w h pixels visited contours = Some cs \<and>
           scanInv d w h visited' cs \<and>
           set (concat contours) \<subseteq> set (concat cs) \<and>
           (\<forall>yx \<in> set pixels. edgeAt d w h \<lparr>pt_x = int (snd yx), pt_y = int (fst yx)\<rparr> \<longrightarrow>
              \<lparr>pt_x = int (snd yx), pt_y = int (fst yx)\<rparr> \<in> set (concat cs))"
  using assms
proof (induction pixels arbitrary: visited contours)
  case Nil
  then show ?case by auto
next
  case (Cons yx pixels)
  obtain y x where yx: "yx = (y, x)" by (cases yx)
  let ?p = "\<lparr>pt_x = int x, pt_y = int y\<rparr>"
  let ?index = "y * w + x"
  from Cons.prems(2) yx have xy: "x < w" "y < h" by simp_all
  then have rp: "inRange w h ?p" by (simp add: inRange_def)
  have idx: "pixelIndex w ?p = ?index" by simp
  from Cons.prems(2) have rest: "\<forall>yx \<in> set pixels. snd yx < w \<and> fst yx < h" by simp
  from Cons.prems(1) have len: "length visited = w * h" by (simp add: scanInv_def)
  show ?case
  proof (cases "aget d ?index = Some 255 \<and> falsy (aget visited ?index)")
    case True
    let ?V0 = "set (concat contours)"
    let ?visited1 = "visited[?index := 1]"
    from True rp idx have edge: "edgeAt d w h ?p" by (simp add: edgeAt_def)
    from True rp idx have "\<not> marked visited w h ?p" by (simp add: marked_def)
    with Cons.prems(1) have new: "?p \<notin> ?V0" by (simp add: scanInv_def)
    have "fillInv d w h ?V0 ?visited1 ([] @ [?p])"
      using Cons.prems(1) new edge marked_update [OF rp len] idx
      unfolding fillInv_def scanInv_def by auto
    from floodFill_inv [OF this]
    obtain visited' ext where
      ff: "floodFill d w h ?visited1 [?p] [] = Some (visited', ?p # ext)"
      and finv: "fillInv d w h ?V0 visited' (?p # ext)"
      by auto
    have sinv: "scanInv d w h visited' (contours @ [?p # ext])"
      using Cons.prems(1) finv unfolding fillInv_def scanInv_def by auto
    from Cons.IH [OF sinv rest]
    obtain cs visited'' where
      r: "scanPixels d w h pixels visited' (contours @ [?p # ext]) = Some cs"
      and rinv: "scanInv d w h visited'' cs"
      and mono: "set (concat (contours @ [?p # ext])) \<subseteq> set (concat cs)"
      and cov: "\<forall>yx \<in> set pixels. edgeAt d w h \<lparr>pt_x = int (snd yx), pt_y = int (fst yx)\<rparr> \<longrightarrow>
              \<lparr>pt_x = int (snd yx), pt_y = int (fst yx)\<rparr> \<in> set (concat cs)"
      by blast
    have "scanPixels d w h (yx # pixels) visited contours = Some cs"
      using True ff r by (simp add: yx Let_def)
    moreover from mono have "set (concat contours) \<subseteq> set (concat cs)" "?p \<in> set (concat cs)"
      by auto
    ultimately show ?thesis using rinv cov yx by auto
  next
    case False
    from Cons.IH [OF Cons.prems(1) rest]
    obtain cs visited'' where
      r: "scanPixels d w h pixels visited contours = Some cs"
      and rinv: "scanInv d w h visited'' cs"
      and mono: "set (concat contours) \<subseteq> set (concat cs)"
      and cov: "\<forall>yx \<in> set pixels. edgeAt d w h \<lparr>pt_x = int (snd yx), pt_y = int (fst yx)\<rparr> \<longrightarrow>
              \<lparr>pt_x = int (snd yx), pt_y = int (fst yx)\<rparr> \<in> set (concat cs)"
      by blast
    have step: "scanPixels d w h (yx # pixels) visited contours = Some cs"
      using False r by (auto simp: yx Let_def)
    have "?p \<in> set (concat cs)" if "edgeAt d w h ?p"
    proof -
      from that idx have "aget d ?index = Some 255" by (simp add: edgeAt_def)
      with False have "\<not> falsy (aget visited ?index)" by simp
      with rp idx have "marked visited w h ?p" by (simp add: marked_def)
      with Cons.prems(1) have "?p \<in> set (concat contours)" by (simp add: scanInv_def)
      with mono show ?thesis by blast
    qed
    with step rinv mono cov yx show ?thesis by auto
  qed
qed

lemma allPixels_mem: "(y, x) \<in> set (allPixels w h) \<longleftrightarrow> x < w \<and> y < h"
  by (auto simp: allPixels_def image_iff)

text \<open>
  The contours together list every edge pixel once, and nothing else.
\<close>

lemma findContours_sound:
  "\<exists>cs. findContours m = Some cs \<and> distinct (concat cs) \<and> [] \<notin> set cs \<and>
         set (concat cs) = {p. edgeAt (data m) (width m) (height m) p}"
proof -
  let ?d = "data m" and ?w = "width m" and ?h = "height m"
  have init: "scanInv ?d ?w ?h (replicate (?w * ?h) 0) []"
    using pixelIndex_less [of ?w ?h]
    by (auto simp: scanInv_def marked_def aget_def falsy_def)
  have range: "\<forall>yx \<in> set (allPixels ?w ?h). snd yx < ?w \<and> fst yx < ?h"
    by (auto simp: allPixels_mem)
  from scanPixels_inv [OF init range]
  obtain cs visited' where
    r: "scanPixels ?d ?w ?h (allPixels ?w ?h) (replicate (?w * ?h) 0) [] = Some cs"
    and inv: "scanInv ?d ?w ?h visited' cs"
    and cov: "\<forall>yx \<in> set (allPixels ?w ?h).
                edgeAt ?d ?w ?h \<lparr>pt_x = int (snd yx), pt_y = int (fst yx)\<rparr> \<longrightarrow>
                \<lparr>pt_x = int (snd yx), pt_y = int (fst yx)\<rparr> \<in> set (concat cs)"
    by blast
  have "p \<in> set (concat cs)" if e: "edgeAt ?d ?w ?h p" for p
  proof -
    from e have "inRange ?w ?h p" by (simp add: edgeAt_def)
    then obtain x y where p: "p = \<lparr>pt_x = int x, pt_y = int y\<rparr>" and "x < ?w" "y < ?h"
      by (rule inRange_nat)
    then have "(y, x) \<in> set (allPixels ?w ?h)" by (simp add: allPixels_mem)
    with cov e p show ?thesis by force
  qed
  moreover from inv have "distinct (concat cs)" "[] \<notin> set cs"
    "\<forall>p \<in> set (concat cs). edgeAt ?d ?w ?h p" by (simp_all add: scanInv_def)
  ultimately have "distinct (concat cs) \<and> [] \<notin> set cs \<and>
         set (concat cs) = {p. edgeAt ?d ?w ?h p}" by blast
  with r show ?thesis by (simp add: findContours_def Let_def)
qed

lemma distinct_concat_unique:
  assumes "distinct (concat cs)" "i < length cs" "j < length cs"
    "p \<in> set (cs ! i)" "p \<in> set (cs ! j)"
  shows "i = j"
  using assms
proof (induction cs arbitrary: i j)
  case Nil
  then show ?case by simp
next
  case (Cons c cs)
  have tail: "p \<in> set (concat cs)" if "k < length cs" "p \<in> set (cs ! k)" for k
    using that by (auto intro: nth_mem)
  from Cons.prems(1) have disj: "p \<in> set c \<Longrightarrow> p \<notin> set (concat cs)"
    and dist: "distinct (concat cs)" by auto
  show ?case
  proof (cases i; cases j)
    fix i' j' assume ij: "i = Suc i'" "j = Suc j'"
    with Cons.prems Cons.IH [OF dist, of i' j'] show ?thesis by simp
  next
    fix j' assume ij: "i = 0" "j = Suc j'"
    with Cons.prems tail [of j'] disj show ?thesis by simp
  next
    fix i' assume ij: "i = Suc i'" "j = 0"
    with Cons.prems tail [of i'] disj show ?thesis by simp
  qed simp
qed

text \<open>
  The threshold test without the square root, for evaluation: for a threshold
  \<open>t \<ge> 0\<close>, \<open>sqrt v > t\<close> is \<open>v > t * t\<close>.
\<close>

lemma sqrt_gt: "0 \<le> t \<Longrightarrow> (t < sqrt x) = (t * t < x)"
  by (metis abs_of_nonneg real_sqrt_abs2 real_sqrt_less_iff)

lemma aboveThreshold_code [code]:
  "aboveThreshold g t =
     (case g of None \<Rightarrow> False
      | Some (gx, gy) \<Rightarrow> t < 0 \<or> t * t < real_of_int (gx * gx + gy * gy))"
proof (cases g)
  case None then show ?thesis by (simp add: aboveThreshold_def)
next
  case (Some p)
  obtain gx gy where p: "p = (gx, gy)" by (cases p)
  define v where "v = real_of_int (gx * gx + gy * gy)"
  have nn: "0 \<le> sqrt v" by (simp add: v_def)
  have "(t < sqrt v) = (t < 0 \<or> t * t < v)"
  proof (cases "t < 0")
    case True with nn show ?thesis by linarith
  next
    case False then show ?thesis using sqrt_gt [of t v] by simp
  qed
  then show ?thesis using Some p by (simp add: aboveThreshold_def v_def)
qed

declare floodFill.simps [code]

lemma findContours_mask32:
  "findContours mask32 =
     Some [[\<lparr>pt_x = 0, pt_y = 0\<rparr>], [\<lparr>pt_x = 2, pt_y = 0\<rparr>, \<lparr>pt_x = 2, pt_y = 1\<rparr>]]"
  by code_simp

text \<open>
  Claim C5. For every mask, \<open>findContours\<close> returns, and the contours it returns
  partition the edge pixels: every pixel whose mask value is 255 is in exactly one
  contour, every contour is a non-empty list of distinct edge pixels. The result is a
  function of the mask alone: \<open>findContours\<close> has no other argument and no state.
\<close>

theorem findContours_partition:
  "\<exists>cs. findContours m = Some cs \<and>
      (\<forall>p. isEdgePixel m p \<longrightarrow> (\<exists>!i. i < length cs \<and> p \<in> set (cs ! i))) \<and>
      (\<forall>i < length cs. cs ! i \<noteq> [] \<and> distinct (cs ! i) \<and> (\<forall>p \<in> set (cs ! i). isEdgePixel m p))"
proof -
  from findContours_sound [of m]
  obtain cs where r: "findContours m = Some cs" and dist: "distinct (concat cs)"
    and ne: "[] \<notin> set cs" and eq: "set (concat cs) = {p. isEdgePixel m p}"
    by (auto simp: isEdgePixel_def)
  have ex1: "\<exists>!i. i < length cs \<and> p \<in> set (cs ! i)" if "isEdgePixel m p" for p
  proof -
    from that eq have "p \<in> set (concat cs)" by simp
    then obtain c where "c \<in> set cs" "p \<in> set c" by auto
    then obtain i where "i < length cs" "p \<in> set (cs ! i)" by (metis in_set_conv_nth)
    then show ?thesis using distinct_concat_unique [OF dist] by blast
  qed
  have each: "cs ! i \<noteq> [] \<and> distinct (cs ! i) \<and> (\<forall>p \<in> set (cs ! i). isEdgePixel m p)"
    if "i < length cs" for i
  proof -
    from that have mem: "cs ! i \<in> set cs" by simp
    with ne have "cs ! i \<noteq> []" by metis
    moreover from dist mem have "distinct (cs ! i)" by (simp add: distinct_concat_iff)
    moreover from eq mem have "\<forall>p \<in> set (cs ! i). isEdgePixel m p" by auto
    ultimately show ?thesis by simp
  qed
  from r ex1 each show ?thesis by blast
qed

theorem findContours_partition_witness:
  "findContours mask32 =
     Some [[\<lparr>pt_x = 0, pt_y = 0\<rparr>], [\<lparr>pt_x = 2, pt_y = 0\<rparr>, \<lparr>pt_x = 2, pt_y = 1\<rparr>]] \<and>
   isEdgePixel mask32 \<lparr>pt_x = 2, pt_y = 1\<rparr> \<and>
   (\<exists>!i. i < length [[\<lparr>pt_x = 0, pt_y = 0\<rparr>], [\<lparr>pt_x = 2, pt_y = 0\<rparr>, \<lparr>pt_x = 2, pt_y = 1\<rparr>]] \<and>
      \<lparr>pt_x = 2, pt_y = 1\<rparr>
        \<in> set ([[\<lparr>pt_x = 0, pt_y = 0\<rparr>], [\<lparr>pt_x = 2, pt_y = 0\<rparr>, \<lparr>pt_x = 2, pt_y = 1\<rparr>]] ! i))"
proof -
  have e: "isEdgePixel mask32 \<lparr>pt_x = 2, pt_y = 1\<rparr>"
    by (simp add: isEdgePixel_def edgeAt_def inRange_def mask32_def aget_def pixelIndex_def)
  from findContours_partition [of mask32] findContours_mask32 e show ?thesis
    by auto
qed

section \<open>Properties of the crop candidate selection\<close>

text \<open>A merge is at least as large as either of its arguments.\<close>

lemma mergeRects_area:
  assumes "0 \<le> box_w a" "0 \<le> box_h a" "0 \<le> box_w b" "0 \<le> box_h b"
  shows "box_w a * box_h a \<le> box_w (mergeRects a b) * box_h (mergeRects a b) \<and>
         box_w b * box_h b \<le> box_w (mergeRects a b) * box_h (mergeRects a b)"
proof -
  let ?m = "mergeRects a b"
  have w: "box_w a \<le> box_w ?m" "box_w b \<le> box_w ?m"
    and h: "box_h a \<le> box_h ?m" "box_h b \<le> box_h ?m"
    by (simp_all add: mergeRects_def Let_def)
  from w(1) h(1) assms(1,2) have "box_w a * box_h a \<le> box_w ?m * box_h ?m"
    by (intro mult_mono) simp_all
  moreover from w(2) h(2) assms(3,4) have "box_w b * box_h b \<le> box_w ?m * box_h ?m"
    by (intro mult_mono) simp_all
  ultimately show ?thesis by simp
qed

lemma mergeRects_good:
  assumes a: "goodBox W H minArea a" and b: "goodBox W H minArea b"
  shows "goodBox W H minArea (mergeRects a b)"
proof -
  let ?m = "mergeRects a b"
  have w: "box_w a \<le> box_w ?m" and h: "box_h a \<le> box_h ?m"
    by (simp_all add: mergeRects_def Let_def)
  from a have pos: "0 < box_w a" "0 < box_h a" and ar: "minArea < box_w a * box_h a"
    by (simp_all add: goodBox_def)
  have "box_w a * box_h a \<le> box_w ?m * box_h ?m"
    using w h pos by (intro mult_mono) simp_all
  with ar have "minArea < box_w ?m * box_h ?m" by simp
  moreover have "0 < box_w ?m" "0 < box_h ?m" using w h pos by simp_all
  moreover have "0 \<le> box_x ?m \<and> 0 \<le> box_y ?m \<and> box_x ?m + box_w ?m \<le> W \<and> box_y ?m + box_h ?m \<le> H"
    using a b by (simp add: mergeRects_def Let_def goodBox_def)
  ultimately show ?thesis by (simp add: goodBox_def)
qed

lemma set_splice1: "set (splice1 j xs) \<subseteq> set xs"
  unfolding splice1_def by (auto dest: in_set_takeD in_set_dropD)

lemma mergeLoop_good:
  "\<forall>b \<in> set boxes. goodBox W H minArea b \<Longrightarrow>
   \<forall>b \<in> set (mergeLoop boxes margin). goodBox W H minArea b"
proof (induction boxes margin rule: mergeLoop.induct)
  case (1 boxes margin)
  show ?case
  proof (cases "firstMergeable boxes margin")
    case None
    with "1.prems" show ?thesis by (simp add: mergeLoop.simps)
  next
    case (Some ij)
    obtain i j where ij: "ij = (i, j)" by (cases ij)
    from Some ij have "firstMergeable boxes margin = Some (i, j)" by simp
    then have bounds: "i < j \<and> j < length boxes" by (rule firstMergeable_Some)
    let ?m = "mergeRects (boxes ! i) (boxes ! j)"
    let ?boxes' = "splice1 j (boxes[i := ?m])"
    from bounds have "boxes ! i \<in> set boxes" "boxes ! j \<in> set boxes" by simp_all
    with "1.prems" have "goodBox W H minArea (boxes ! i)" "goodBox W H minArea (boxes ! j)"
      by blast+
    then have m: "goodBox W H minArea ?m" by (rule mergeRects_good)
    have "set ?boxes' \<subseteq> set (boxes[i := ?m])" by (rule set_splice1)
    also have "\<dots> \<subseteq> insert ?m (set boxes)" by (rule set_update_subset_insert)
    finally have "set ?boxes' \<subseteq> insert ?m (set boxes)" .
    with m "1.prems" have good': "\<forall>b \<in> set ?boxes'. goodBox W H minArea b" by blast
    have "mergeLoop boxes margin = mergeLoop ?boxes' margin"
      by (subst mergeLoop.simps) (simp add: Some ij)
    with "1.IH" [OF Some ij [symmetric] good'] show ?thesis by simp
  qed
qed

lemma mergeNearbyBoxes_good:
  "\<forall>b \<in> set boxes. goodBox W H minArea b \<Longrightarrow>
   \<forall>b \<in> set (mergeNearbyBoxes boxes iw ih). goodBox W H minArea b"
  unfolding mergeNearbyBoxes_def Let_def by (simp add: mergeLoop_good)

lemma foldl_largerBox_mem: "foldl largerBox first others \<in> set (first # others)"
proof (induction others arbitrary: first)
  case Nil
  then show ?case by simp
next
  case (Cons b others)
  from Cons.IH [of "largerBox first b"] show ?case
    by (auto simp: largerBox_def split: if_splits)
qed

lemma foldl_boundStep:
  assumes "lo \<le> minX" "minX \<le> maxX" "maxX \<le> hi" "\<forall>p \<in> set ps. lo \<le> pt_x p \<and> pt_x p \<le> hi"
    and "lo' \<le> minY" "minY \<le> maxY" "maxY \<le> hi'" "\<forall>p \<in> set ps. lo' \<le> pt_y p \<and> pt_y p \<le> hi'"
  shows "case foldl boundStep (minX, minY, maxX, maxY) ps of
           (a, b, c, e) \<Rightarrow> lo \<le> a \<and> a \<le> c \<and> c \<le> hi \<and> lo' \<le> b \<and> b \<le> e \<and> e \<le> hi'"
  using assms
proof (induction ps arbitrary: minX minY maxX maxY)
  case Nil
  then show ?case by simp
next
  case (Cons p ps)
  define a' where "a' = (if pt_x p < minX then pt_x p else minX)"
  define b' where "b' = (if pt_y p < minY then pt_y p else minY)"
  define c' where "c' = (if pt_x p > maxX then pt_x p else maxX)"
  define e' where "e' = (if pt_y p > maxY then pt_y p else maxY)"
  have step: "foldl boundStep (minX, minY, maxX, maxY) (p # ps) = foldl boundStep (a', b', c', e') ps"
    by (simp add: boundStep_def a'_def b'_def c'_def e'_def)
  from Cons.prems have "lo \<le> a'" "a' \<le> c'" "c' \<le> hi" "lo' \<le> b'" "b' \<le> e'" "e' \<le> hi'"
    by (simp_all add: a'_def b'_def c'_def e'_def)
  moreover from Cons.prems have "\<forall>p \<in> set ps. lo \<le> pt_x p \<and> pt_x p \<le> hi"
    "\<forall>p \<in> set ps. lo' \<le> pt_y p \<and> pt_y p \<le> hi'" by simp_all
  ultimately show ?case unfolding step by (intro Cons.IH)
qed

lemma getBoundingRect_bounds:
  assumes "ps \<noteq> []" "\<forall>p \<in> set ps. inRange w h p"
  shows "0 \<le> box_x (getBoundingRect ps) \<and> 0 \<le> box_y (getBoundingRect ps) \<and>
         0 \<le> box_w (getBoundingRect ps) \<and> 0 \<le> box_h (getBoundingRect ps) \<and>
         box_x (getBoundingRect ps) + box_w (getBoundingRect ps) \<le> real w \<and>
         box_y (getBoundingRect ps) + box_h (getBoundingRect ps) \<le> real h"
proof -
  from assms(1) obtain p qs where ps: "ps = p # qs" by (cases ps) auto
  from assms(2) ps have r: "0 \<le> pt_x p" "pt_x p \<le> int w" "0 \<le> pt_y p" "pt_y p \<le> int h"
    and rx: "\<forall>q \<in> set qs. 0 \<le> pt_x q \<and> pt_x q \<le> int w"
    and ry: "\<forall>q \<in> set qs. 0 \<le> pt_y q \<and> pt_y q \<le> int h"
    by (auto simp: inRange_def)
  obtain a b c e where f: "foldl boundStep (pt_x p, pt_y p, pt_x p, pt_y p) qs = (a, b, c, e)"
    using prod_cases4 by blast
  have "case foldl boundStep (pt_x p, pt_y p, pt_x p, pt_y p) qs of
           (a, b, c, e) \<Rightarrow> 0 \<le> a \<and> a \<le> c \<and> c \<le> int w \<and> 0 \<le> b \<and> b \<le> e \<and> e \<le> int h"
    by (rule foldl_boundStep) (use r rx ry in simp_all)
  with f have i: "0 \<le> a" "a \<le> c" "c \<le> int w" "0 \<le> b" "b \<le> e" "e \<le> int h" by simp_all
  from i(3) have cw: "real_of_int c \<le> real w" by (metis of_int_le_iff of_int_of_nat_eq)
  from i(6) have eh: "real_of_int e \<le> real h" by (metis of_int_le_iff of_int_of_nat_eq)
  from i cw eh show ?thesis by (simp add: ps f)
qed

lemma toGrayscale_dims [simp]:
  "width (toGrayscale img) = width img" "height (toGrayscale img) = height img"
  by (simp_all add: toGrayscale_def)

lemma gaussianBlur_dims [simp]:
  "width (gaussianBlur g) = width g" "height (gaussianBlur g) = height g"
  by (simp_all add: gaussianBlur_def Let_def)

lemma cannyEdgeDetector_dims [simp]:
  "width (cannyEdgeDetector g t) = width g" "height (cannyEdgeDetector g t) = height g"
  by (simp_all add: cannyEdgeDetector_def Let_def)

lemma findContours_contourOK:
  "\<exists>cs. findContours m = Some cs \<and> (\<forall>c \<in> set cs. contourOK (width m) (height m) c)"
proof -
  from findContours_sound [of m]
  obtain cs where r: "findContours m = Some cs" and ne: "[] \<notin> set cs"
    and eq: "set (concat cs) = {p. edgeAt (data m) (width m) (height m) p}"
    by blast
  have "contourOK (width m) (height m) c" if "c \<in> set cs" for c
  proof -
    from that ne have "c \<noteq> []" by blast
    moreover from that eq have "\<forall>p \<in> set c. edgeAt (data m) (width m) (height m) p" by auto
    ultimately show ?thesis by (simp add: contourOK_def edgeAt_def)
  qed
  with r show ?thesis by blast
qed

lemma collectContours_contourOK:
  assumes "\<forall>c \<in> set acc. contourOK (width b) (height b) c"
  shows "\<exists>cs. collectContours b ts acc = Some cs \<and> (\<forall>c \<in> set cs. contourOK (width b) (height b) c)"
  using assms
proof (induction ts arbitrary: acc)
  case Nil
  then show ?case by simp
next
  case (Cons t ts)
  from findContours_contourOK [of "cannyEdgeDetector b t"]
  obtain cs where r: "findContours (cannyEdgeDetector b t) = Some cs"
    and ok: "\<forall>c \<in> set cs. contourOK (width b) (height b) c" by auto
  from Cons.prems ok have "\<forall>c \<in> set (acc @ cs). contourOK (width b) (height b) c" by auto
  from Cons.IH [OF this] r show ?case by (simp add: Let_def)
qed

lemma getBoundingRect_good:
  assumes c: "contourOK w h c"
    and area: "real w * real h * (15 / 1000) < box_w (getBoundingRect c) * box_h (getBoundingRect c)"
  shows "goodBox (real w) (real h) (real w * real h * (15 / 1000)) (getBoundingRect c)"
proof -
  let ?b = "getBoundingRect c"
  from c have b: "0 \<le> box_x ?b" "0 \<le> box_y ?b" "0 \<le> box_w ?b" "0 \<le> box_h ?b"
    "box_x ?b + box_w ?b \<le> real w" "box_y ?b + box_h ?b \<le> real h"
    using getBoundingRect_bounds [of c w h] by (simp_all add: contourOK_def)
  have "0 \<le> real w * real h * (15 / 1000)" by simp
  with area have pos: "0 < box_w ?b * box_h ?b" by linarith
  have "0 < box_w ?b"
  proof (rule ccontr)
    assume "\<not> 0 < box_w ?b"
    with b(3) have "box_w ?b = 0" by simp
    with pos show False by simp
  qed
  moreover have "0 < box_h ?b"
  proof (rule ccontr)
    assume "\<not> 0 < box_h ?b"
    with b(4) have "box_h ?b = 0" by simp
    with pos show False by simp
  qed
  ultimately show ?thesis using b area by (simp add: goodBox_def)
qed

lemma selectBestBox_returns: "\<exists>r. selectBestBox img = Some r"
proof -
  from collectContours_contourOK [of "[]" "gaussianBlur (toGrayscale img)" thresholds]
  obtain cs where "collectContours (gaussianBlur (toGrayscale img)) thresholds [] = Some cs"
    by auto
  then show ?thesis by (simp add: selectBestBox_def Let_def)
qed

lemma selectBestBox_good:
  assumes "selectBestBox img = Some (Some b)"
  shows "goodBox (real (width img)) (real (height img))
           (real (width img) * real (height img) * (15 / 1000)) b"
proof -
  let ?w = "width img" and ?h = "height img"
  let ?minArea = "real ?w * real ?h * (15 / 1000)"
  let ?blur = "gaussianBlur (toGrayscale img)"
  from collectContours_contourOK [of "[]" ?blur thresholds]
  obtain cs where r: "collectContours ?blur thresholds [] = Some cs"
    and ok: "\<forall>c \<in> set cs. contourOK ?w ?h c" by auto
  let ?valid = "filter (\<lambda>box. box_w box * box_h box > ?minArea) (map getBoundingRect cs)"
  let ?merged = "mergeNearbyBoxes ?valid (real ?w) (real ?h)"
  have valid: "\<forall>v \<in> set ?valid. goodBox (real ?w) (real ?h) ?minArea v"
  proof
    fix v assume "v \<in> set ?valid"
    then obtain c where c: "c \<in> set cs" and v: "v = getBoundingRect c"
      and ar: "?minArea < box_w v * box_h v"
      unfolding set_filter set_map by blast
    from ok c have "contourOK ?w ?h c" by blast
    from getBoundingRect_good [OF this] ar v
    show "goodBox (real ?w) (real ?h) ?minArea v" by blast
  qed
  then have merged: "\<forall>v \<in> set ?merged. goodBox (real ?w) (real ?h) ?minArea v"
    by (rule mergeNearbyBoxes_good)
  from assms r obtain first others where m: "?merged = first # others"
    and b: "b = foldl largerBox first others"
    by (auto simp: selectBestBox_def Let_def split: if_splits list.splits)
  from b have "b \<in> set (first # others)" using foldl_largerBox_mem by simp
  with m merged show ?thesis by metis
qed

lemma sanityCheck_cases: "sanityCheck b w h = Null \<or> sanityCheck b w h = Box b"
  by (simp add: sanityCheck_def Let_def)

text \<open>The sanity check at 96%, 95% and 94% of the image area.\<close>

lemma sanityCheck_examples:
  "sanityCheck \<lparr>box_x = 2, box_y = 0, box_w = 96, box_h = 100\<rparr> 100 100 = Null"
  "sanityCheck \<lparr>box_x = 2, box_y = 0, box_w = 95, box_h = 100\<rparr> 100 100 =
     Box \<lparr>box_x = 2, box_y = 0, box_w = 95, box_h = 100\<rparr>"
  "sanityCheck \<lparr>box_x = 2, box_y = 0, box_w = 94, box_h = 100\<rparr> 100 100 =
     Box \<lparr>box_x = 2, box_y = 0, box_w = 94, box_h = 100\<rparr>"
  by (simp_all add: sanityCheck_def)

text \<open>The selection always returns: every loop of the pipeline ends.\<close>

lemma suggestCrop_returns: "\<exists>r. suggestCropWithEdgeDetection ctx img = Some r"
proof -
  obtain r where "selectBestBox img = Some r" using selectBestBox_returns by blast
  then show ?thesis
    using sanityCheck_cases
    by (cases r; cases ctx)
       (auto simp: suggestCropWithEdgeDetection_def suggestCropBody_def split: outcome.splits)
qed

lemma suggestCrop_Box:
  assumes "suggestCropWithEdgeDetection ctx img = Some (Box b)"
  shows "selectBestBox img = Some (Some b) \<and> ctx \<and> sanityCheck b (width img) (height img) = Box b"
proof -
  from assms have ctx: ctx
    by (auto simp: suggestCropWithEdgeDetection_def suggestCropBody_def split: if_splits)
  obtain r where r: "selectBestBox img = Some r" using selectBestBox_returns by blast
  show ?thesis
  proof (cases r)
    case None
    with assms r ctx show ?thesis
      by (simp add: suggestCropWithEdgeDetection_def suggestCropBody_def)
  next
    case (Some best)
    with assms r ctx have "sanityCheck best (width img) (height img) = Box b"
      by (simp add: suggestCropWithEdgeDetection_def suggestCropBody_def split: outcome.splits)
    moreover from this have "best = b" using sanityCheck_cases [of best "width img" "height img"]
      by auto
    ultimately show ?thesis using r Some ctx by simp
  qed
qed

lemma toGrayscale_white:
  "toGrayscale \<lparr>data = replicate (4 * (w * h)) 255, width = w, height = h\<rparr> =
     \<lparr>data = replicate (w * h) 255, width = w, height = h\<rparr>"
proof -
  let ?img = "\<lparr>data = replicate (4 * (w * h)) 255, width = w, height = h\<rparr>"
  have wf: "wellFormedRGBA ?img" by (simp add: wellFormedRGBA_def list_all_iff)
  have r: "round ((255 + 255 + 255) / 3 :: real) = 255" by simp
  have "data (toGrayscale ?img) = replicate (w * h) 255"
  proof (rule nth_equalityI)
    show "length (data (toGrayscale ?img)) = length (replicate (w * h) (255::nat))"
      by (simp add: toGrayscale_length)
  next
    fix p assume "p < length (data (toGrayscale ?img))"
    then have p: "p < w * h" by (simp add: toGrayscale_length)
    with toGrayscale_nth [OF wf, of p] r show "data (toGrayscale ?img) ! p = replicate (w * h) 255 ! p"
      by simp
  qed
  moreover have "toGrayscale ?img = \<lparr>data = data (toGrayscale ?img), width = w, height = h\<rparr>"
    by (simp add: toGrayscale_def)
  ultimately show ?thesis by simp
qed

lemma toGrayscale_white4: "toGrayscale white4 = gray4"
  using toGrayscale_white [of 4 4] by (simp add: white4_def gray4_def)

lemma gaussianBlur_gray4: "gaussianBlur gray4 = ring4"
  by code_simp

lemma canny_ring4: "cannyEdgeDetector ring4 30 = ring4 \<and> cannyEdgeDetector ring4 70 = ring4"
  by code_simp

lemma findContours_ring4: "findContours ring4 = Some [square4]"
  by code_simp

lemma collectContours_ring4: "collectContours ring4 thresholds [] = Some [square4, square4]"
  by (simp add: thresholds_def canny_ring4 findContours_ring4)

lemma getBoundingRect_square4: "getBoundingRect square4 = unitBox"
  by (simp add: square4_def unitBox_def boundStep_def)

lemma mergeNearbyBoxes_unit: "mergeNearbyBoxes [unitBox, unitBox] 4 4 = [unitBox]"
proof -
  have "min (4::nat) 4 \<le> 2 ^ 31" by simp
  from mergeMargin_safe [OF this]
  obtain m where margin: "mergeMargin 4 4 = Finite m" and m: "safeMargin m" by auto
  have u: "integerBox unitBox" by (simp add: integerBox_def smallInteger_def unitBox_def)
  from m have "0 \<le> m" by (simp add: safeMargin_def)
  then have "shouldMergeExact unitBox unitBox m" by (simp add: shouldMergeExact_def unitBox_def)
  then have sm: "shouldMerge unitBox unitBox (Finite m)" by (simp add: shouldMerge_exact [OF u u m])
  have f2: "firstMergeable [unitBox, unitBox] (Finite m) = Some (0, 1)"
    using sm by (simp add: firstMergeable_def scanJ_def upt_conv_Cons)
  have f1: "firstMergeable [unitBox] (Finite m) = None"
    by (simp add: firstMergeable_def scanJ_def upt_conv_Cons)
  have mr: "mergeRects unitBox unitBox = unitBox" by (simp add: mergeRects_def unitBox_def)
  have "mergeLoop [unitBox, unitBox] (Finite m) = mergeLoop [unitBox] (Finite m)"
    by (subst mergeLoop.simps) (simp add: f2 mr splice1_def)
  also have "\<dots> = [unitBox]" by (subst mergeLoop.simps) (simp add: f1)
  finally show ?thesis by (simp add: mergeNearbyBoxes_def margin)
qed

lemma selectBestBox_white4: "selectBestBox white4 = Some (Some unitBox)"
proof -
  have dims: "width white4 = 4" "height white4 = 4" by (simp_all add: white4_def)
  have area: "box_w unitBox * box_h unitBox = 1" by (simp add: unitBox_def)
  show ?thesis
    unfolding selectBestBox_def Let_def dims toGrayscale_white4 gaussianBlur_gray4
      collectContours_ring4
    by (simp add: getBoundingRect_square4 area mergeNearbyBoxes_unit)
qed

lemma suggestCrop_white4: "suggestCropWithEdgeDetection True white4 = Some (Box unitBox)"
proof -
  have dims: "width white4 = 4" "height white4 = 4" by (simp_all add: white4_def)
  have "sanityCheck unitBox 4 4 = Box unitBox"
    by (simp add: sanityCheck_def unitBox_def)
  then show ?thesis
    by (simp add: suggestCropWithEdgeDetection_def suggestCropBody_def selectBestBox_white4 dims)
qed

text \<open>
  Claim C1, as the code has it. When the canvas gives no 2D context, the body of
  \<open>suggestCropWithEdgeDetection\<close> throws its error, the \<^verbatim>\<open>catch\<close> clause of the
  same function catches it, and the caller gets \<^verbatim>\<open>null\<close>, the no-suggestion
  outcome: no error reaches the caller.
\<close>

theorem suggestCrop_context_unavailable:
  "suggestCropBody False img = Some (Threw CanvasContextError) \<and>
   suggestCropWithEdgeDetection False img = Some Null"
  by (simp add: suggestCropWithEdgeDetection_def suggestCropBody_def)

text \<open>
  The claim as the specification words it, a failure surfaced to the caller, fails on
  the white image: without a context the caller gets \<^verbatim>\<open>null\<close>, not the error.
\<close>

theorem suggestCrop_context_counterexample:
  "suggestCropWithEdgeDetection False white4 = Some Null \<and>
   suggestCropWithEdgeDetection False white4 \<noteq> Some (Threw CanvasContextError)"
  by (simp add: suggestCropWithEdgeDetection_def suggestCropBody_def)

text \<open>
  Claim C2. For every image with positive width and height,
  \<open>suggestCropWithEdgeDetection\<close> returns, and every box it returns has \<open>w > 0\<close>,
  \<open>h > 0\<close>, \<open>0 \<le> x\<close>, \<open>0 \<le> y\<close>, \<open>x + w \<le> imageWidth\<close> and
  \<open>y + h \<le> imageHeight\<close>.
\<close>

theorem suggestCrop_box_in_bounds:
  assumes "0 < width img" "0 < height img"
  shows "(\<exists>r. suggestCropWithEdgeDetection ctx img = Some r) \<and>
         (\<forall>b. suggestCropWithEdgeDetection ctx img = Some (Box b) \<longrightarrow>
            0 < box_w b \<and> 0 < box_h b \<and> 0 \<le> box_x b \<and> 0 \<le> box_y b \<and>
            box_x b + box_w b \<le> real (width img) \<and> box_y b + box_h b \<le> real (height img))"
proof -
  have "0 < box_w b \<and> 0 < box_h b \<and> 0 \<le> box_x b \<and> 0 \<le> box_y b \<and>
        box_x b + box_w b \<le> real (width img) \<and> box_y b + box_h b \<le> real (height img)"
    if "suggestCropWithEdgeDetection ctx img = Some (Box b)" for b
  proof -
    from suggestCrop_Box [OF that] have "selectBestBox img = Some (Some b)" by simp
    from selectBestBox_good [OF this] show ?thesis by (simp add: goodBox_def)
  qed
  with suggestCrop_returns [of ctx img] show ?thesis by blast
qed

theorem suggestCrop_box_in_bounds_witness:
  "0 < width white4 \<and> 0 < height white4 \<and>
   suggestCropWithEdgeDetection True white4 = Some (Box unitBox) \<and>
   0 < box_w unitBox \<and> 0 < box_h unitBox \<and> 0 \<le> box_x unitBox \<and> 0 \<le> box_y unitBox \<and>
   box_x unitBox + box_w unitBox \<le> real (width white4) \<and>
   box_y unitBox + box_h unitBox \<le> real (height white4)"
proof -
  have dims: "0 < width white4" "0 < height white4" by (simp_all add: white4_def)
  from suggestCrop_box_in_bounds [OF dims, of True] suggestCrop_white4 dims
  show ?thesis by blast
qed

text \<open>
  Claim C10. For every image with positive width and height, every box returned by
  \<open>suggestCropWithEdgeDetection\<close> has an area \<open>w * h\<close> strictly greater than
  \<open>0.015 * imageWidth * imageHeight\<close>: the filter keeps only such boxes, and a merge
  is at least as wide and as high as each of its arguments (\<open>mergeRects_area\<close>,
  \<open>mergeRects_good\<close>).
\<close>

theorem suggestCrop_box_area:
  assumes "0 < width img" "0 < height img"
    and "suggestCropWithEdgeDetection ctx img = Some (Box b)"
  shows "(15 / 1000) * real (width img) * real (height img) < box_w b * box_h b"
proof -
  from suggestCrop_Box [OF assms(3)] have "selectBestBox img = Some (Some b)" by simp
  from selectBestBox_good [OF this]
  have "real (width img) * real (height img) * (15 / 1000) < box_w b * box_h b"
    by (simp add: goodBox_def)
  then show ?thesis by (simp add: mult.commute mult.left_commute)
qed

theorem suggestCrop_box_area_witness:
  "0 < width white4 \<and> 0 < height white4 \<and>
   suggestCropWithEdgeDetection True white4 = Some (Box unitBox) \<and>
   (15 / 1000) * real (width white4) * real (height white4) < box_w unitBox * box_h unitBox"
proof -
  have dims: "0 < width white4" "0 < height white4" by (simp_all add: white4_def)
  from suggestCrop_box_area [OF dims suggestCrop_white4] suggestCrop_white4 dims
  show ?thesis by blast
qed

text \<open>
  Claim C6. Once a merged box has been selected, \<open>suggestCropWithEdgeDetection\<close>
  returns \<^verbatim>\<open>null\<close> exactly when the area of that box exceeds 95% of the image
  area, and returns the box otherwise; so a box of exactly 96% of the image area is
  rejected and one of exactly 94% is returned.
\<close>

theorem sanityCheck_threshold:
  assumes "selectBestBox img = Some (Some b)"
  shows "(suggestCropWithEdgeDetection True img = Some Null \<longleftrightarrow>
            (95 / 100) * (real (width img) * real (height img)) < box_w b * box_h b) \<and>
         (suggestCropWithEdgeDetection True img \<noteq> Some Null \<longrightarrow>
            suggestCropWithEdgeDetection True img = Some (Box b)) \<and>
         (box_w b * box_h b = (96 / 100) * (real (width img) * real (height img)) \<longrightarrow>
            suggestCropWithEdgeDetection True img = Some Null) \<and>
         (box_w b * box_h b = (94 / 100) * (real (width img) * real (height img)) \<longrightarrow>
            suggestCropWithEdgeDetection True img = Some (Box b))"
proof -
  define A where "A = real (width img) * real (height img)"
  define a where "a = box_w b * box_h b"
  from selectBestBox_good [OF assms]
  have g: "0 < box_w b" "0 < box_h b" "0 \<le> box_x b" "0 \<le> box_y b"
    "box_x b + box_w b \<le> real (width img)" "box_y b + box_h b \<le> real (height img)"
    by (simp_all add: goodBox_def)
  then have "0 < real (width img)" "0 < real (height img)" by linarith+
  then have A: "0 < A" by (simp add: A_def)
  then have ratio: "(a / A > 95 / 100) = ((95 / 100) * A < a)"
    by (simp add: pos_less_divide_eq)
  have "suggestCropWithEdgeDetection True img = Some (sanityCheck b (width img) (height img))"
    using assms sanityCheck_cases [of b "width img" "height img"]
    by (auto simp: suggestCropWithEdgeDetection_def suggestCropBody_def)
  also have "sanityCheck b (width img) (height img) = (if (95 / 100) * A < a then Null else Box b)"
    unfolding sanityCheck_def Let_def A_def [symmetric] a_def [symmetric] ratio ..
  finally have res: "suggestCropWithEdgeDetection True img =
                       Some (if (95 / 100) * A < a then Null else Box b)" .
  have c1: "suggestCropWithEdgeDetection True img = Some Null \<longleftrightarrow> (95 / 100) * A < a"
    by (simp add: res)
  have c2: "suggestCropWithEdgeDetection True img \<noteq> Some Null \<longrightarrow>
            suggestCropWithEdgeDetection True img = Some (Box b)"
    by (simp add: res)
  have c3: "suggestCropWithEdgeDetection True img = Some Null" if "a = (96 / 100) * A"
  proof -
    from A that have "(95 / 100) * A < a" by linarith
    then show ?thesis by (simp add: res)
  qed
  have c4: "suggestCropWithEdgeDetection True img = Some (Box b)" if "a = (94 / 100) * A"
  proof -
    from A that have "\<not> (95 / 100) * A < a" by linarith
    then show ?thesis by (simp add: res)
  qed
  from c1 c2 c3 c4 show ?thesis unfolding A_def a_def by blast
qed

theorem sanityCheck_threshold_witness:
  "selectBestBox white4 = Some (Some unitBox) \<and>
   suggestCropWithEdgeDetection True white4 = Some (Box unitBox) \<and>
   \<not> (95 / 100) * (real (width white4) * real (height white4)) < box_w unitBox * box_h unitBox"
proof -
  have "suggestCropWithEdgeDetection True white4 \<noteq> Some Null"
    by (simp add: suggestCrop_white4)
  with sanityCheck_threshold [OF selectBestBox_white4] selectBestBox_white4
  show ?thesis by blast
qed

end
